theory Spec2Isabelle
  imports Main "HOL-Library.Word"
begin

unbundle bit_operations_syntax

section \<open>The generic VT102 backend (vt102-backend-generic.c)\<close>

text \<open>
  The backend keeps the screen in three heap buffers: \<open>chbuf\<close> (one byte per cell, row
  major), \<open>grbuf\<close> (one rendition byte per cell: foreground index in bits 0..3,
  background index in bits 4..7) and \<open>must_refresh_line_buf\<close> (one flag per row).
  The buffers are lists here. A C access outside a buffer is undefined behaviour; the
  model makes it the value \<open>Inl OutOfBounds\<close>, and the deliberate write through a null
  pointer in \<open>display_char\<close> the value \<open>Inl NullPointerWrite\<close>, so that every
  operation returns \<open>fault + term_data\<close>.

  The C \<open>int\<close> fields are modelled as \<open>int\<close>. The additions of a caller-supplied
  argument to a field wrap around to 32 bits, as written out in \<open>int_add\<close>, and so does
  the product \<open>width * height\<close> that sizes the buffers, as written out in \<open>int_mul\<close>:
  65536 by 65536 is 0 bytes. \<open>malloc\<close> takes that product as a \<open>size_t\<close>; a negative
  \<open>int\<close> becomes a size of more than \<open>2^63\<close> bytes, which no allocation satisfies, and
  the source prints \<open>no core\<close> and exits: the value \<open>Inl NoCore\<close>. An allocation of a
  size that is not negative is taken to succeed.
\<close>

datatype fault = NullPointerWrite | OutOfBounds | NoCore

type_synonym byte = "8 word"

record term_data =
  cur_fg_gc_idx :: int
  cur_bg_gc_idx :: int
  con_width :: int
  con_height :: int
  chbuf :: "byte list"
  grbuf :: "byte list"
  cursor_x :: int
  cursor_y :: int
  margin_top :: int
  margin_bottom :: int
  must_refresh :: bool
  must_refresh_line_buf :: "bool list"

definition NR_MIN_VT102_SCREEN_COLUMNS :: int where
  "NR_MIN_VT102_SCREEN_COLUMNS = 10"

definition NR_MIN_VT102_SCREEN_ROWS :: int where
  "NR_MIN_VT102_SCREEN_ROWS = 2"

definition thenE :: "fault + 'a \<Rightarrow> ('a \<Rightarrow> fault + 'b) \<Rightarrow> fault + 'b" where
  "thenE m f = (case m of Inl e \<Rightarrow> Inl e | Inr x \<Rightarrow> f x)"

text \<open>Signed 32-bit addition with two's complement wrap-around.\<close>

definition int_add :: "int \<Rightarrow> int \<Rightarrow> int" where
  "int_add a b = (a + b + 2147483648) mod 4294967296 - 2147483648"

text \<open>Signed 32-bit multiplication with two's complement wrap-around.\<close>

definition int_mul :: "int \<Rightarrow> int \<Rightarrow> int" where
  "int_mul a b = (a * b + 2147483648) mod 4294967296 - 2147483648"

subsection \<open>Buffer primitives\<close>

text \<open>
  \<open>memset buf off c n\<close> is \<open>memset(buf + off, c, n)\<close>, \<open>memmove buf dst src n\<close> is
  \<open>memmove(buf + dst, buf + src, n)\<close> and \<open>memcpy dbuf dst sbuf src n\<close> is
  \<open>memcpy(dbuf + dst, sbuf + src, n)\<close>. The length is a \<open>size_t\<close> in C: a negative
  \<open>int\<close> becomes a huge length, which is out of bounds.
\<close>

definition memset :: "'a list \<Rightarrow> int \<Rightarrow> 'a \<Rightarrow> int \<Rightarrow> fault + 'a list" where
  "memset buf off c n =
     (if 0 \<le> off \<and> 0 \<le> n \<and> off + n \<le> int (length buf)
      then Inr (take (nat off) buf @ replicate (nat n) c @ drop (nat (off + n)) buf)
      else Inl OutOfBounds)"

definition memmove :: "'a list \<Rightarrow> int \<Rightarrow> int \<Rightarrow> int \<Rightarrow> fault + 'a list" where
  "memmove buf dst src n =
     (if 0 \<le> dst \<and> 0 \<le> src \<and> 0 \<le> n
         \<and> dst + n \<le> int (length buf) \<and> src + n \<le> int (length buf)
      then Inr (take (nat dst) buf @ take (nat n) (drop (nat src) buf)
                @ drop (nat (dst + n)) buf)
      else Inl OutOfBounds)"

definition memcpy :: "'a list \<Rightarrow> int \<Rightarrow> 'a list \<Rightarrow> int \<Rightarrow> int \<Rightarrow> fault + 'a list" where
  "memcpy dbuf dst sbuf src n =
     (if 0 \<le> dst \<and> 0 \<le> src \<and> 0 \<le> n
         \<and> dst + n \<le> int (length dbuf) \<and> src + n \<le> int (length sbuf)
      then Inr (take (nat dst) dbuf @ take (nat n) (drop (nat src) sbuf)
                @ drop (nat (dst + n)) dbuf)
      else Inl OutOfBounds)"

definition store :: "'a list \<Rightarrow> int \<Rightarrow> 'a \<Rightarrow> fault + 'a list" where
  "store buf i v =
     (if 0 \<le> i \<and> i < int (length buf) then Inr (buf[nat i := v]) else Inl OutOfBounds)"

subsection \<open>Cursor movement\<close>

definition move_cursor_relative :: "term_data \<Rightarrow> int \<Rightarrow> int \<Rightarrow> term_data" where
  "move_cursor_relative s dx dy =
     (let s1 = s\<lparr>cursor_x := int_add (cursor_x s) dx\<rparr>;
          s2 = s1\<lparr>cursor_y := int_add (cursor_y s1) dy\<rparr>;
          s3 = (if cursor_x s2 < 0 then s2\<lparr>cursor_x := 0\<rparr> else s2);
          s4 = (if cursor_y s3 < margin_top s3 then s3\<lparr>cursor_y := margin_top s3\<rparr> else s3);
          s5 = (if cursor_x s4 \<ge> con_width s4 then s4\<lparr>cursor_x := con_width s4 - 1\<rparr> else s4);
          s6 = (if cursor_y s5 > margin_bottom s5 then s5\<lparr>cursor_y := margin_bottom s5\<rparr> else s5)
      in s6\<lparr>must_refresh := True\<rparr>)"

definition move_cursor_absolute :: "term_data \<Rightarrow> int \<Rightarrow> int \<Rightarrow> term_data" where
  "move_cursor_absolute s x y =
     (let s1 = s\<lparr>cursor_x := x\<rparr>;
          s2 = s1\<lparr>cursor_y := y\<rparr>;
          s3 = (if cursor_x s2 < 0 then s2\<lparr>cursor_x := 0\<rparr> else s2);
          s4 = (if cursor_y s3 < margin_top s3 then s3\<lparr>cursor_y := margin_top s3\<rparr> else s3);
          s5 = (if cursor_x s4 > con_width s4 - 1 then s4\<lparr>cursor_x := con_width s4 - 1\<rparr> else s4);
          s6 = (if cursor_y s5 > margin_bottom s5 then s5\<lparr>cursor_y := margin_bottom s5\<rparr> else s5)
      in s6\<lparr>must_refresh := True\<rparr>)"

definition move_cursor_column_absolute :: "term_data \<Rightarrow> int \<Rightarrow> term_data" where
  "move_cursor_column_absolute s x = move_cursor_absolute s x (cursor_y s)"

definition handle_backspace :: "term_data \<Rightarrow> term_data" where
  "handle_backspace s = (move_cursor_relative s (- 1) 0)\<lparr>must_refresh := True\<rparr>"

definition handle_carriage_return :: "term_data \<Rightarrow> term_data" where
  "handle_carriage_return s = (move_cursor_absolute s 0 (cursor_y s))\<lparr>must_refresh := True\<rparr>"

subsection \<open>Line feed and character display\<close>

definition handle_linefeed :: "term_data \<Rightarrow> fault + term_data" where
  "handle_linefeed s =
     thenE
       (if cursor_y s = margin_bottom s then
          thenE (memmove (chbuf s) (margin_top s * con_width s)
                   ((margin_top s + 1) * con_width s)
                   ((margin_bottom s - margin_top s) * con_width s)) (\<lambda>cb.
          thenE (memmove (grbuf s) (margin_top s * con_width s)
                   ((margin_top s + 1) * con_width s)
                   ((margin_bottom s - margin_top s) * con_width s)) (\<lambda>gb.
          thenE (memset cb (margin_bottom s * con_width s) 0x20 (con_width s)) (\<lambda>cb'.
          thenE (memset gb (margin_bottom s * con_width s) 0 (con_width s)) (\<lambda>gb'.
          thenE (memset (must_refresh_line_buf s) (margin_top s) True
                   (margin_bottom s - margin_top s + 1)) (\<lambda>lb.
          Inr (s\<lparr>chbuf := cb', grbuf := gb', must_refresh_line_buf := lb\<rparr>))))))
        else Inr s)
       (\<lambda>s1. Inr ((move_cursor_absolute s1 (cursor_x s1) (cursor_y s1 + 1))
                    \<lparr>must_refresh := True\<rparr>))"

text \<open>
  \<open>display_char\<close> calls the line feed through the table of backend operations; the table
  installed by \<open>init_vt102_generic_backend\<close> holds \<open>handle_linefeed\<close>. The character
  is an \<open>unsigned int\<close>, stored into an \<open>unsigned char\<close>.
\<close>

definition display_char :: "term_data \<Rightarrow> nat \<Rightarrow> fault + term_data" where
  "display_char s ch =
     (if cursor_x s \<ge> con_width s then Inl NullPointerWrite
      else if cursor_y s \<ge> con_height s then Inl NullPointerWrite
      else
        let cx = cursor_x s; cy = cursor_y s in
        thenE (store (chbuf s) (cy * con_width s + cx) (of_nat ch)) (\<lambda>cb.
        thenE (store (grbuf s) (cy * con_width s + cx)
                 (word_of_int (cur_fg_gc_idx s OR push_bit 4 (cur_bg_gc_idx s)))) (\<lambda>gb.
        thenE (store (must_refresh_line_buf s) cy True) (\<lambda>lb.
        let s1 = s\<lparr>chbuf := cb, grbuf := gb, must_refresh_line_buf := lb,
                   cursor_x := cursor_x s + 1\<rparr> in
        thenE
          (if cursor_x s1 = con_width s1 then
             let s2 = s1\<lparr>cursor_x := 0, cursor_y := cursor_y s1 + 1\<rparr> in
             if cursor_y s2 = con_height s2 then
               handle_linefeed (s2\<lparr>cursor_y := cursor_y s2 - 1\<rparr>)
             else
               thenE (store (must_refresh_line_buf s2) (cy + 1) True) (\<lambda>lb2.
               Inr (s2\<lparr>must_refresh_line_buf := lb2\<rparr>))
           else Inr s1)
          (\<lambda>s3. Inr (s3\<lparr>must_refresh := True\<rparr>))))))"

text \<open>
  The tab loop \<open>while (i--)\<close> of \<open>handle_horiz_tab\<close>; its count
  \<open>((cursor_x + 8) & ~7) - cursor_x\<close> lies between 1 and 8.
\<close>

fun tab_loop :: "nat \<Rightarrow> term_data \<Rightarrow> fault + term_data" where
  "tab_loop 0 s = Inr s"
| "tab_loop (Suc i) s = thenE (display_char s 0x20) (tab_loop i)"

definition handle_horiz_tab :: "term_data \<Rightarrow> fault + term_data" where
  "handle_horiz_tab s =
     (let i = ((cursor_x s + 8) AND NOT 7) - cursor_x s in
      thenE (tab_loop (nat i) s) (\<lambda>s1. Inr (s1\<lparr>must_refresh := True\<rparr>)))"

subsection \<open>Erasing\<close>

definition erase_line_at_cursor :: "term_data \<Rightarrow> fault + term_data" where
  "erase_line_at_cursor s =
     thenE (memset (chbuf s) (cursor_y s * con_width s) 0x20 (con_width s)) (\<lambda>cb.
     thenE (memset (grbuf s) (cursor_y s * con_width s) 0 (con_width s)) (\<lambda>gb.
     thenE (store (must_refresh_line_buf s) (cursor_y s) True) (\<lambda>lb.
     Inr (s\<lparr>chbuf := cb, grbuf := gb, must_refresh_line_buf := lb, must_refresh := True\<rparr>))))"

definition erase_line_from_beginning_to_cursor :: "term_data \<Rightarrow> fault + term_data" where
  "erase_line_from_beginning_to_cursor s =
     thenE (memset (chbuf s) (cursor_y s * con_width s) 0x20 (cursor_x s + 1)) (\<lambda>cb.
     thenE (memset (grbuf s) (cursor_y s * con_width s) 0 (cursor_x s + 1)) (\<lambda>gb.
     thenE (store (must_refresh_line_buf s) (cursor_y s) True) (\<lambda>lb.
     Inr (s\<lparr>chbuf := cb, grbuf := gb, must_refresh_line_buf := lb, must_refresh := True\<rparr>))))"

definition erase_line_from_cursor_to_end :: "term_data \<Rightarrow> fault + term_data" where
  "erase_line_from_cursor_to_end s =
     thenE (memset (chbuf s) (cursor_y s * con_width s + cursor_x s) 0x20
              (con_width s - cursor_x s)) (\<lambda>cb.
     thenE (memset (grbuf s) (cursor_y s * con_width s + cursor_x s) 0
              (con_width s - cursor_x s)) (\<lambda>gb.
     thenE (store (must_refresh_line_buf s) (cursor_y s) True) (\<lambda>lb.
     Inr (s\<lparr>chbuf := cb, grbuf := gb, must_refresh_line_buf := lb, must_refresh := True\<rparr>))))"

definition erase_display :: "term_data \<Rightarrow> fault + term_data" where
  "erase_display s =
     thenE (memset (chbuf s) 0 0x20 (con_height s * con_width s)) (\<lambda>cb.
     thenE (memset (grbuf s) 0 0 (con_height s * con_width s)) (\<lambda>gb.
     thenE (memset (must_refresh_line_buf s) 0 True (con_height s)) (\<lambda>lb.
     Inr (s\<lparr>chbuf := cb, grbuf := gb, must_refresh_line_buf := lb, must_refresh := True\<rparr>))))"

definition erase_display_from_beginning_to_cursor :: "term_data \<Rightarrow> fault + term_data" where
  "erase_display_from_beginning_to_cursor s =
     thenE (memset (chbuf s) 0 0x20 (cursor_y s * con_width s + cursor_x s + 1)) (\<lambda>cb.
     thenE (memset (grbuf s) 0 0 (cursor_y s * con_width s + cursor_x s + 1)) (\<lambda>gb.
     thenE (memset (must_refresh_line_buf s) 0 True (cursor_y s + 1)) (\<lambda>lb.
     thenE (erase_line_from_beginning_to_cursor
              (s\<lparr>chbuf := cb, grbuf := gb, must_refresh_line_buf := lb\<rparr>)) (\<lambda>s1.
     Inr (s1\<lparr>must_refresh := True\<rparr>)))))"

definition erase_display_from_cursor_to_end :: "term_data \<Rightarrow> fault + term_data" where
  "erase_display_from_cursor_to_end s =
     thenE (memset (chbuf s) (cursor_y s * con_width s + cursor_x s) 0x20
              (con_width s * con_height s - (cursor_y s * con_width s + cursor_x s))) (\<lambda>cb.
     thenE (memset (grbuf s) (cursor_y s * con_width s + cursor_x s) 0
              (con_width s * con_height s - (cursor_y s * con_width s + cursor_x s))) (\<lambda>gb.
     thenE (memset (must_refresh_line_buf s) (cursor_y s) True
              (con_height s - cursor_y s)) (\<lambda>lb.
     thenE (erase_line_from_cursor_to_end
              (s\<lparr>chbuf := cb, grbuf := gb, must_refresh_line_buf := lb\<rparr>)) (\<lambda>s1.
     Inr (s1\<lparr>must_refresh := True\<rparr>)))))"

subsection \<open>Margins and editing\<close>

definition set_top_and_bottom_margins :: "term_data \<Rightarrow> int \<Rightarrow> int \<Rightarrow> term_data" where
  "set_top_and_bottom_margins s top0 bottom0 =
     (let top1 = (if top0 < 0 then 0 else top0);
          top2 = (if top1 \<ge> con_height s - 2 then con_height s - 2 else top1);
          bottom1 = (if bottom0 \<le> top2 then top2 + 1 else bottom0);
          bottom2 = (if bottom1 \<ge> con_height s - 1 then con_height s - 1 else bottom1)
      in s\<lparr>margin_top := top2, margin_bottom := bottom2\<rparr>)"

definition insert_lines_at_cursor :: "term_data \<Rightarrow> int \<Rightarrow> fault + term_data" where
  "insert_lines_at_cursor s nr_lines =
     (if \<not> (margin_top s \<le> cursor_y s \<and> cursor_y s \<le> margin_bottom s) then Inr s
      else
        let i = int_add (cursor_y s) nr_lines in
        thenE
          (if i > margin_bottom s
           then Inr (margin_bottom s - cursor_y s + 1, chbuf s, grbuf s)
           else
             thenE (memmove (chbuf s) (i * con_width s) (cursor_y s * con_width s)
                      ((margin_bottom s - i + 1) * con_width s)) (\<lambda>cb.
             thenE (memmove (grbuf s) (i * con_width s) (cursor_y s * con_width s)
                      ((margin_bottom s - i + 1) * con_width s)) (\<lambda>gb.
             Inr (nr_lines, cb, gb))))
          (\<lambda>(nr, cb, gb).
             thenE (memset cb (cursor_y s * con_width s) 0x20 (nr * con_width s)) (\<lambda>cb'.
             thenE (memset gb (cursor_y s * con_width s) 0 (nr * con_width s)) (\<lambda>gb'.
             thenE (memset (must_refresh_line_buf s) (cursor_y s) True
                      (margin_bottom s - cursor_y s + 1)) (\<lambda>lb.
             Inr (s\<lparr>chbuf := cb', grbuf := gb', must_refresh_line_buf := lb,
                     must_refresh := True\<rparr>))))))"

definition delete_lines_at_cursor :: "term_data \<Rightarrow> int \<Rightarrow> fault + term_data" where
  "delete_lines_at_cursor s nr_lines =
     (if \<not> (margin_top s \<le> cursor_y s \<and> cursor_y s \<le> margin_bottom s) then Inr s
      else
        let i = int_add (cursor_y s) nr_lines in
        thenE
          (if i > margin_bottom s
           then Inr (margin_bottom s - cursor_y s + 1, chbuf s, grbuf s)
           else
             thenE (memmove (chbuf s) (cursor_y s * con_width s) (i * con_width s)
                      ((margin_bottom s - i + 1) * con_width s)) (\<lambda>cb.
             thenE (memmove (grbuf s) (cursor_y s * con_width s) (i * con_width s)
                      ((margin_bottom s - i + 1) * con_width s)) (\<lambda>gb.
             Inr (nr_lines, cb, gb))))
          (\<lambda>(nr, cb, gb).
             thenE (memset cb ((margin_bottom s - nr + 1) * con_width s) 0x20
                      (nr * con_width s)) (\<lambda>cb'.
             thenE (memset gb ((margin_bottom s - nr + 1) * con_width s) 0
                      (nr * con_width s)) (\<lambda>gb'.
             thenE (memset (must_refresh_line_buf s) (cursor_y s) True
                      (margin_bottom s - cursor_y s + 1)) (\<lambda>lb.
             Inr (s\<lparr>chbuf := cb', grbuf := gb', must_refresh_line_buf := lb,
                     must_refresh := True\<rparr>))))))"

text \<open>Only \<open>chbuf\<close> is moved and filled here; the function does not mention \<open>grbuf\<close>.\<close>

definition delete_characters_at_cursor :: "term_data \<Rightarrow> int \<Rightarrow> fault + term_data" where
  "delete_characters_at_cursor s nr_characters =
     (if nr_characters \<le> 0 then Inr s
      else
        let i = con_width s - cursor_x s;
            nr = (if nr_characters > i then i else nr_characters) in
        thenE (memmove (chbuf s) (cursor_y s * con_width s + cursor_x s)
                 (cursor_y s * con_width s + cursor_x s + nr) (i - nr)) (\<lambda>cb.
        thenE (memset cb ((cursor_y s + 1) * con_width s - nr) 0x20 nr) (\<lambda>cb'.
        thenE (store (must_refresh_line_buf s) (cursor_y s) True) (\<lambda>lb.
        Inr (s\<lparr>chbuf := cb', must_refresh_line_buf := lb, must_refresh := True\<rparr>)))))"

text \<open>
  The second \<open>memset\<close> of the scroll fills \<open>grbuf\<close> with \<open>' '\<close> (0x20), and the cursor
  move passes \<open>cursor_x\<close> as the horizontal offset; both are as in the source.
\<close>

definition cursor_reverse_index :: "term_data \<Rightarrow> fault + term_data" where
  "cursor_reverse_index s =
     thenE
       (if cursor_y s = margin_top s then
          thenE (memmove (chbuf s) ((margin_top s + 1) * con_width s)
                   (margin_top s * con_width s)
                   ((margin_bottom s - margin_top s) * con_width s)) (\<lambda>cb.
          thenE (memmove (grbuf s) ((margin_top s + 1) * con_width s)
                   (margin_top s * con_width s)
                   ((margin_bottom s - margin_top s) * con_width s)) (\<lambda>gb.
          thenE (memset cb (margin_top s * con_width s) 0x20 (con_width s)) (\<lambda>cb'.
          thenE (memset gb (margin_top s * con_width s) 0x20 (con_width s)) (\<lambda>gb'.
          thenE (memset (must_refresh_line_buf s) (margin_top s) True
                   (margin_bottom s - margin_top s + 1)) (\<lambda>lb.
          Inr (s\<lparr>chbuf := cb', grbuf := gb', must_refresh_line_buf := lb\<rparr>))))))
        else Inr s)
       (\<lambda>s1. Inr ((move_cursor_relative s1 (cursor_x s1) (- 1))\<lparr>must_refresh := True\<rparr>))"

subsection \<open>Graphic rendition\<close>

text \<open>
  One pass of the \<open>switch\<close> on a parameter (an \<open>unsigned int\<close>). Case 7 falls through to
  \<open>default\<close>, which only prints.
\<close>

definition sgr_param :: "term_data \<Rightarrow> nat \<Rightarrow> term_data" where
  "sgr_param s p =
     (if p = 0 then s\<lparr>cur_fg_gc_idx := 7, cur_bg_gc_idx := 0\<rparr>
      else if 30 \<le> p \<and> p \<le> 37 then s\<lparr>cur_fg_gc_idx := int p - 30\<rparr>
      else if p = 39 then s\<lparr>cur_fg_gc_idx := 7\<rparr>
      else if 40 \<le> p \<and> p \<le> 47 then s\<lparr>cur_bg_gc_idx := int p - 40\<rparr>
      else if p = 49 then s\<lparr>cur_bg_gc_idx := 0\<rparr>
      else if p = 7 then
        (let t = cur_bg_gc_idx s in s\<lparr>cur_bg_gc_idx := cur_fg_gc_idx s, cur_fg_gc_idx := t\<rparr>)
      else s)"

function sgr_loop :: "int \<Rightarrow> term_data \<Rightarrow> nat list \<Rightarrow> int \<Rightarrow> fault + term_data" where
  "sgr_loop i s cmd_params nr_params =
     (if i < nr_params then
        (if 0 \<le> i \<and> i < int (length cmd_params)
         then sgr_loop (i + 1) (sgr_param s (cmd_params ! nat i)) cmd_params nr_params
         else Inl OutOfBounds)
      else Inr s)"
  by pat_completeness auto
termination
  by (relation "measure (\<lambda>(i, s, cmd_params, nr_params). nat (nr_params - i))") auto

declare sgr_loop.simps [simp del]

definition select_graphic_rendition :: "term_data \<Rightarrow> nat list \<Rightarrow> int \<Rightarrow> fault + term_data" where
  "select_graphic_rendition s cmd_params nr_params = sgr_loop 0 s cmd_params nr_params"

subsection \<open>Creation and resizing\<close>

text \<open>
  The buffers of \<open>init_vt102_generic_backend\<close> have \<open>con_width * con_height\<close> bytes, a
  product of two \<open>int\<close>s. When that product is negative the allocation fails and the
  source exits without a terminal; \<open>init_allocates\<close> says that it is not, and only then
  is the state below one that the function returns.
\<close>

definition init_vt102_generic_backend :: "int \<Rightarrow> int \<Rightarrow> term_data" where
  "init_vt102_generic_backend width height =
     (let width1 = (if width < NR_MIN_VT102_SCREEN_COLUMNS
                    then NR_MIN_VT102_SCREEN_COLUMNS else width);
          height1 = (if height < NR_MIN_VT102_SCREEN_ROWS
                     then NR_MIN_VT102_SCREEN_ROWS else height)
      in \<lparr>cur_fg_gc_idx = 7, cur_bg_gc_idx = 0,
          con_width = width1, con_height = height1,
          chbuf = replicate (nat (int_mul width1 height1)) 0x45,
          grbuf = replicate (nat (int_mul width1 height1)) 0,
          cursor_x = 0, cursor_y = 0,
          margin_top = 0, margin_bottom = height1 - 1,
          must_refresh = True,
          must_refresh_line_buf = replicate (nat height1) True\<rparr>)"

definition init_allocates :: "int \<Rightarrow> int \<Rightarrow> bool" where
  "init_allocates width height \<longleftrightarrow>
     0 \<le> int_mul (con_width (init_vt102_generic_backend width height))
               (con_height (init_vt102_generic_backend width height))"

text \<open>The row-copying loop of the resize: \<open>for (i = 0; i < h; i++)\<close>.\<close>

function copy_rows ::
  "int \<Rightarrow> int \<Rightarrow> int \<Rightarrow> int \<Rightarrow> term_data \<Rightarrow> byte list \<Rightarrow> byte list
     \<Rightarrow> fault + (byte list \<times> byte list)" where
  "copy_rows i h w new_width s cb gb =
     (if i < h then
        thenE (memcpy cb (i * new_width) (chbuf s) (i * con_width s) w) (\<lambda>cb'.
        thenE (memcpy gb (i * new_width) (grbuf s) (i * con_width s) w) (\<lambda>gb'.
        copy_rows (i + 1) h w new_width s cb' gb'))
      else Inr (cb, gb))"
  by pat_completeness auto
termination
  by (relation "measure (\<lambda>(i, h, w, new_width, s, cb, gb). nat (h - i))") auto

declare copy_rows.simps [simp del]

definition vt102_generic_backend_resize_buffers ::
  "term_data \<Rightarrow> int \<Rightarrow> int \<Rightarrow> fault + term_data" where
  "vt102_generic_backend_resize_buffers s new_width new_height =
     (let new_width1 = (if new_width < NR_MIN_VT102_SCREEN_COLUMNS
                        then NR_MIN_VT102_SCREEN_COLUMNS else new_width);
          new_height1 = (if new_height < NR_MIN_VT102_SCREEN_ROWS
                         then NR_MIN_VT102_SCREEN_ROWS else new_height);
          n = int_mul new_width1 new_height1
      in if n < 0 then Inl NoCore
         else
         let cb0 = replicate (nat n) 0x20;
             gb0 = replicate (nat n) 0;
             w = (if con_width s > new_width1 then new_width1 else con_width s);
             h = (if con_height s > new_height1 then new_height1 else con_height s)
         in thenE (copy_rows 0 h w new_width1 s cb0 gb0) (\<lambda>(cb, gb).
         let s1 = s\<lparr>chbuf := cb, grbuf := gb,
                    must_refresh_line_buf := replicate (nat new_height1) True,
                    must_refresh := True,
                    con_width := new_width1, con_height := new_height1\<rparr>;
             s2 = (if cursor_x s1 \<ge> con_width s1
                   then s1\<lparr>cursor_x := con_width s1 - 1\<rparr> else s1);
             s3 = (if cursor_y s2 \<ge> con_height s2
                   then s2\<lparr>cursor_y := con_height s2 - 1\<rparr> else s2)
         in Inr (s3\<lparr>margin_top := 0, margin_bottom := con_height s3 - 1\<rparr>)))"

subsection \<open>Sequences of backend operations\<close>

text \<open>
  The operations of the table \<open>vt102_backend_ops\<close> that the backend installs, and the
  resize entry point.
\<close>

datatype backend_op =
    DisplayChar nat
  | MoveCursorRelative int int
  | MoveCursorAbsolute int int
  | MoveCursorColumnAbsolute int
  | EraseLineAtCursor
  | EraseLineFromBeginningToCursor
  | EraseLineFromCursorToEnd
  | EraseDisplay
  | EraseDisplayFromBeginningToCursor
  | EraseDisplayFromCursorToEnd
  | HandleBackspace
  | HandleHorizTab
  | HandleLinefeed
  | HandleCarriageReturn
  | SetTopAndBottomMargins int int
  | InsertLinesAtCursor int
  | DeleteLinesAtCursor int
  | DeleteCharactersAtCursor int
  | CursorReverseIndex
  | SelectGraphicRendition "nat list" int
  | ResizeBuffers int int

fun apply_op :: "backend_op \<Rightarrow> term_data \<Rightarrow> fault + term_data" where
  "apply_op (DisplayChar ch) s = display_char s ch"
| "apply_op (MoveCursorRelative dx dy) s = Inr (move_cursor_relative s dx dy)"
| "apply_op (MoveCursorAbsolute x y) s = Inr (move_cursor_absolute s x y)"
| "apply_op (MoveCursorColumnAbsolute x) s = Inr (move_cursor_column_absolute s x)"
| "apply_op EraseLineAtCursor s = erase_line_at_cursor s"
| "apply_op EraseLineFromBeginningToCursor s = erase_line_from_beginning_to_cursor s"
| "apply_op EraseLineFromCursorToEnd s = erase_line_from_cursor_to_end s"
| "apply_op EraseDisplay s = erase_display s"
| "apply_op EraseDisplayFromBeginningToCursor s = erase_display_from_beginning_to_cursor s"
| "apply_op EraseDisplayFromCursorToEnd s = erase_display_from_cursor_to_end s"
| "apply_op HandleBackspace s = Inr (handle_backspace s)"
| "apply_op HandleHorizTab s = handle_horiz_tab s"
| "apply_op HandleLinefeed s = handle_linefeed s"
| "apply_op HandleCarriageReturn s = Inr (handle_carriage_return s)"
| "apply_op (SetTopAndBottomMargins t b) s = Inr (set_top_and_bottom_margins s t b)"
| "apply_op (InsertLinesAtCursor n) s = insert_lines_at_cursor s n"
| "apply_op (DeleteLinesAtCursor n) s = delete_lines_at_cursor s n"
| "apply_op (DeleteCharactersAtCursor n) s = delete_characters_at_cursor s n"
| "apply_op CursorReverseIndex s = cursor_reverse_index s"
| "apply_op (SelectGraphicRendition ps n) s = select_graphic_rendition s ps n"
| "apply_op (ResizeBuffers w h) s = vt102_generic_backend_resize_buffers s w h"

fun run_ops :: "backend_op list \<Rightarrow> term_data \<Rightarrow> fault + term_data" where
  "run_ops [] s = Inr s"
| "run_ops (x # xs) s = thenE (apply_op x s) (run_ops xs)"

text \<open>The states a terminal can be in: created, then driven by completed operations.\<close>

inductive reachable :: "term_data \<Rightarrow> bool" where
  reachable_init:
    "init_allocates width height \<Longrightarrow> reachable (init_vt102_generic_backend width height)"
| reachable_step: "reachable s \<Longrightarrow> apply_op x s = Inr s' \<Longrightarrow> reachable s'"

text \<open>Reading a cell: the character and the rendition byte at column \<open>x\<close>, row \<open>y\<close>.\<close>

definition cell_ch :: "term_data \<Rightarrow> int \<Rightarrow> int \<Rightarrow> byte" where
  "cell_ch s x y = chbuf s ! nat (y * con_width s + x)"

definition cell_gr :: "term_data \<Rightarrow> int \<Rightarrow> int \<Rightarrow> byte" where
  "cell_gr s x y = grbuf s ! nat (y * con_width s + x)"

definition line_dirty :: "term_data \<Rightarrow> int \<Rightarrow> bool" where
  "line_dirty s y = must_refresh_line_buf s ! nat y"

text \<open>The state invariant of a screen whose buffers hold one byte for each cell.\<close>

definition screen_inv :: "term_data \<Rightarrow> bool" where
  "screen_inv s \<longleftrightarrow>
     NR_MIN_VT102_SCREEN_COLUMNS \<le> con_width s \<and> NR_MIN_VT102_SCREEN_ROWS \<le> con_height s
     \<and> int (length (chbuf s)) = con_width s * con_height s
     \<and> int (length (grbuf s)) = con_width s * con_height s
     \<and> int (length (must_refresh_line_buf s)) = con_height s
     \<and> 0 \<le> cursor_x s \<and> cursor_x s < con_width s
     \<and> 0 \<le> cursor_y s \<and> cursor_y s < con_height s
     \<and> 0 \<le> margin_top s \<and> margin_top s < margin_bottom s
     \<and> margin_bottom s \<le> con_height s - 1"

text \<open>
  The part of the invariant that does not mention the buffers. It holds in every reachable
  state; \<open>screen_inv\<close> holds in those reached through screen sizes whose product fits an
  \<open>int\<close>, where the buffers have one byte for each cell.
\<close>

definition cursor_inv :: "term_data \<Rightarrow> bool" where
  "cursor_inv s \<longleftrightarrow>
     NR_MIN_VT102_SCREEN_COLUMNS \<le> con_width s \<and> NR_MIN_VT102_SCREEN_ROWS \<le> con_height s
     \<and> 0 \<le> cursor_x s \<and> cursor_x s < con_width s
     \<and> 0 \<le> cursor_y s \<and> cursor_y s < con_height s
     \<and> 0 \<le> margin_top s \<and> margin_top s < margin_bottom s
     \<and> margin_bottom s \<le> con_height s - 1"

definition size_fits :: "int \<Rightarrow> int \<Rightarrow> bool" where
  "size_fits width height \<longleftrightarrow>
     max NR_MIN_VT102_SCREEN_COLUMNS width * max NR_MIN_VT102_SCREEN_ROWS height \<le> 2147483647"

fun op_fits :: "backend_op \<Rightarrow> bool" where
  "op_fits (ResizeBuffers w h) = size_fits w h"
| "op_fits x = True"

text \<open>Two states with the same geometry, cursor, margins, rendition and buffer sizes.\<close>

definition same_shape :: "term_data \<Rightarrow> term_data \<Rightarrow> bool" where
  "same_shape s s' \<longleftrightarrow>
     con_width s' = con_width s \<and> con_height s' = con_height s
     \<and> cursor_x s' = cursor_x s \<and> cursor_y s' = cursor_y s
     \<and> margin_top s' = margin_top s \<and> margin_bottom s' = margin_bottom s
     \<and> cur_fg_gc_idx s' = cur_fg_gc_idx s \<and> cur_bg_gc_idx s' = cur_bg_gc_idx s
     \<and> length (chbuf s') = length (chbuf s) \<and> length (grbuf s') = length (grbuf s)
     \<and> length (must_refresh_line_buf s') = length (must_refresh_line_buf s)"

text \<open>The parameters that the \<open>switch\<close> of \<open>select_graphic_rendition\<close> names.\<close>

definition sgr_recognized :: "nat set" where
  "sgr_recognized = {0, 7} \<union> {30..37} \<union> {39} \<union> {40..47} \<union> {49}"

text \<open>
  \<open>erases s R r\<close>: the operation completed with \<open>r\<close>, every cell of the screen that
  satisfies \<open>R\<close> (column, row) is a space with rendition 0, every other cell is as in
  \<open>s\<close>, and the cursor, the margins, the current rendition and the geometry are those of
  \<open>s\<close>.
\<close>

definition erases :: "term_data \<Rightarrow> (int \<Rightarrow> int \<Rightarrow> bool) \<Rightarrow> fault + term_data \<Rightarrow> bool" where
  "erases s R r \<longleftrightarrow>
     (\<exists>s'. r = Inr s' \<and> same_shape s s'
        \<and> (\<forall>x y. 0 \<le> x \<and> x < con_width s \<and> 0 \<le> y \<and> y < con_height s \<longrightarrow>
               cell_ch s' x y = (if R x y then 0x20 else cell_ch s x y)
               \<and> cell_gr s' x y = (if R x y then 0 else cell_gr s x y)))"

section \<open>Basic facts\<close>

lemma thenE_Inr_iff: "thenE m f = Inr y \<longleftrightarrow> (\<exists>x. m = Inr x \<and> f x = Inr y)"
  by (cases m) (simp_all add: thenE_def)

lemma thenE_Inr [simp]: "thenE (Inr x) f = f x"
  by (simp add: thenE_def)

lemma thenE_Inl [simp]: "thenE (Inl e) f = Inl e"
  by (simp add: thenE_def)

lemma memset_length: "memset buf off c n = Inr b \<Longrightarrow> length b = length buf"
  by (auto simp: memset_def split: if_splits)

lemma memmove_length: "memmove buf dst src n = Inr b \<Longrightarrow> length b = length buf"
  by (auto simp: memmove_def split: if_splits)

lemma memcpy_length: "memcpy dbuf dst sbuf src n = Inr b \<Longrightarrow> length b = length dbuf"
  by (auto simp: memcpy_def split: if_splits)

lemma store_length: "store buf i v = Inr b \<Longrightarrow> length b = length buf"
  by (auto simp: store_def split: if_splits)

lemmas buf_length = memset_length memmove_length memcpy_length store_length

lemma int_mul_exact:
  "- 2147483648 \<le> a * b \<Longrightarrow> a * b < 2147483648 \<Longrightarrow> int_mul a b = a * b"
proof -
  assume "- 2147483648 \<le> a * b" "a * b < 2147483648"
  then have "(a * b + 2147483648) mod 4294967296 = a * b + 2147483648"
    by (intro mod_pos_pos_trivial) simp_all
  then show ?thesis by (simp add: int_mul_def)
qed

lemma size_fits_mul:
  assumes "size_fits width height"
  shows "int_mul (max NR_MIN_VT102_SCREEN_COLUMNS width) (max NR_MIN_VT102_SCREEN_ROWS height)
         = max NR_MIN_VT102_SCREEN_COLUMNS width * max NR_MIN_VT102_SCREEN_ROWS height"
    and "0 \<le> max NR_MIN_VT102_SCREEN_COLUMNS width * max NR_MIN_VT102_SCREEN_ROWS height"
proof -
  let ?w = "max NR_MIN_VT102_SCREEN_COLUMNS width" and ?h = "max NR_MIN_VT102_SCREEN_ROWS height"
  have "0 \<le> ?w" "0 \<le> ?h"
    by (simp_all add: NR_MIN_VT102_SCREEN_COLUMNS_def NR_MIN_VT102_SCREEN_ROWS_def)
  then show p: "0 \<le> ?w * ?h" by simp
  from assms have "?w * ?h < 2147483648" by (simp add: size_fits_def)
  with p show "int_mul ?w ?h = ?w * ?h" by (intro int_mul_exact) simp_all
qed

lemma init_dims:
  "con_width (init_vt102_generic_backend width height) = max NR_MIN_VT102_SCREEN_COLUMNS width"
  "con_height (init_vt102_generic_backend width height) = max NR_MIN_VT102_SCREEN_ROWS height"
  by (simp_all add: init_vt102_generic_backend_def Let_def max_def)

lemma size_fits_allocates: "size_fits width height \<Longrightarrow> init_allocates width height"
  using size_fits_mul[of width height] by (simp add: init_allocates_def init_dims)

lemma reachable_init_fits:
  "size_fits width height \<Longrightarrow> reachable (init_vt102_generic_backend width height)"
  by (rule reachable_init[OF size_fits_allocates])

lemma init_cursor_inv: "cursor_inv (init_vt102_generic_backend width height)"
  by (simp add: cursor_inv_def init_vt102_generic_backend_def Let_def
      NR_MIN_VT102_SCREEN_COLUMNS_def NR_MIN_VT102_SCREEN_ROWS_def)

lemma init_inv:
  assumes "size_fits width height"
  shows "screen_inv (init_vt102_generic_backend width height)"
proof -
  let ?s = "init_vt102_generic_backend width height"
  have l: "length (chbuf ?s) = nat (int_mul (con_width ?s) (con_height ?s))"
    "length (grbuf ?s) = nat (int_mul (con_width ?s) (con_height ?s))"
    "int (length (must_refresh_line_buf ?s)) = con_height ?s"
    by (simp_all add: init_vt102_generic_backend_def Let_def NR_MIN_VT102_SCREEN_ROWS_def)
  from size_fits_mul[OF assms] l
  have "int (length (chbuf ?s)) = con_width ?s * con_height ?s"
    "int (length (grbuf ?s)) = con_width ?s * con_height ?s"
    by (simp_all add: init_dims)
  with l(3) init_cursor_inv[of width height] show ?thesis
    by (simp add: screen_inv_def cursor_inv_def)
qed

text \<open>
  Where the product wraps: a 65536 by 65536 screen is created with buffers of 0 bytes, in
  which a character cannot be stored; a resize to that size copies the first row past the
  end of the new buffer; and a resize to 65536 by 32768 asks for a negative number of bytes.
\<close>

lemma size_product_wraps:
  "int_mul 65536 65536 = 0"
  "init_allocates 65536 65536"
  "chbuf (init_vt102_generic_backend 65536 65536) = []"
  "con_width (init_vt102_generic_backend 65536 65536) = 65536"
  "\<not> screen_inv (init_vt102_generic_backend 65536 65536)"
  "display_char (init_vt102_generic_backend 65536 65536) ch = Inl OutOfBounds"
  "vt102_generic_backend_resize_buffers (init_vt102_generic_backend 80 24) 65536 65536
     = Inl OutOfBounds"
  "vt102_generic_backend_resize_buffers (init_vt102_generic_backend 80 24) 65536 32768
     = Inl NoCore"
proof -
  show m: "int_mul 65536 65536 = 0" by (simp add: int_mul_def)
  have n: "int_mul 65536 32768 = - 2147483648" by (simp add: int_mul_def)
  have d: "con_width (init_vt102_generic_backend 65536 65536) = 65536"
    "con_height (init_vt102_generic_backend 65536 65536) = 65536"
    by (simp_all add: init_dims NR_MIN_VT102_SCREEN_COLUMNS_def NR_MIN_VT102_SCREEN_ROWS_def)
  then show "con_width (init_vt102_generic_backend 65536 65536) = 65536" by simp
  from d m show "init_allocates 65536 65536" by (simp add: init_allocates_def)
  show e: "chbuf (init_vt102_generic_backend 65536 65536) = []"
    by (simp add: init_vt102_generic_backend_def Let_def m
        NR_MIN_VT102_SCREEN_COLUMNS_def NR_MIN_VT102_SCREEN_ROWS_def)
  from d e show "\<not> screen_inv (init_vt102_generic_backend 65536 65536)"
    by (simp add: screen_inv_def)
  have c: "cursor_x (init_vt102_generic_backend 65536 65536) = 0"
    "cursor_y (init_vt102_generic_backend 65536 65536) = 0"
    by (simp_all add: init_vt102_generic_backend_def Let_def)
  from d e c show "display_char (init_vt102_generic_backend 65536 65536) ch = Inl OutOfBounds"
    by (simp add: display_char_def Let_def store_def)
  have i: "con_width (init_vt102_generic_backend 80 24) = 80"
    "con_height (init_vt102_generic_backend 80 24) = 24"
    by (simp_all add: init_dims NR_MIN_VT102_SCREEN_COLUMNS_def NR_MIN_VT102_SCREEN_ROWS_def)
  from i m show "vt102_generic_backend_resize_buffers (init_vt102_generic_backend 80 24)
       65536 65536 = Inl OutOfBounds"
    by (simp add: vt102_generic_backend_resize_buffers_def Let_def copy_rows.simps[of 0]
        memcpy_def NR_MIN_VT102_SCREEN_COLUMNS_def NR_MIN_VT102_SCREEN_ROWS_def)
  from n show "vt102_generic_backend_resize_buffers (init_vt102_generic_backend 80 24)
       65536 32768 = Inl NoCore"
    by (simp add: vt102_generic_backend_resize_buffers_def Let_def
        NR_MIN_VT102_SCREEN_COLUMNS_def NR_MIN_VT102_SCREEN_ROWS_def)
qed

lemma screen_inv_cursor_inv: "screen_inv s \<Longrightarrow> cursor_inv s"
  by (simp add: screen_inv_def cursor_inv_def)

lemma move_cursor_relative_inv:
  "screen_inv s \<Longrightarrow> screen_inv (move_cursor_relative s dx dy)"
  by (simp add: screen_inv_def move_cursor_relative_def Let_def)

lemma move_cursor_absolute_inv:
  "screen_inv s \<Longrightarrow> screen_inv (move_cursor_absolute s x y)"
  by (simp add: screen_inv_def move_cursor_absolute_def Let_def)

lemma set_margins_inv:
  "screen_inv s \<Longrightarrow> screen_inv (set_top_and_bottom_margins s t b)"
  by (simp add: screen_inv_def set_top_and_bottom_margins_def Let_def NR_MIN_VT102_SCREEN_ROWS_def)

text \<open>An operation that keeps the geometry, the cursor and the margins keeps the invariant.\<close>

lemma screen_inv_frame:
  assumes "screen_inv s"
    and "con_width s' = con_width s" and "con_height s' = con_height s"
    and "cursor_x s' = cursor_x s" and "cursor_y s' = cursor_y s"
    and "margin_top s' = margin_top s" and "margin_bottom s' = margin_bottom s"
    and "length (chbuf s') = length (chbuf s)" and "length (grbuf s') = length (grbuf s)"
    and "length (must_refresh_line_buf s') = length (must_refresh_line_buf s)"
  shows "screen_inv s'"
  using assms by (simp add: screen_inv_def)

lemma handle_linefeed_inv:
  assumes "screen_inv s" and "handle_linefeed s = Inr s'"
  shows "screen_inv s'"
proof -
  from assms(2) obtain s1 where s1: "s' = (move_cursor_absolute s1 (cursor_x s1) (cursor_y s1 + 1))\<lparr>must_refresh := True\<rparr>"
    and fr: "con_width s1 = con_width s" "con_height s1 = con_height s"
       "cursor_x s1 = cursor_x s" "cursor_y s1 = cursor_y s"
       "margin_top s1 = margin_top s" "margin_bottom s1 = margin_bottom s"
       "length (chbuf s1) = length (chbuf s)" "length (grbuf s1) = length (grbuf s)"
       "length (must_refresh_line_buf s1) = length (must_refresh_line_buf s)"
    by (auto simp: handle_linefeed_def thenE_Inr_iff split: if_splits dest!: buf_length)
  from screen_inv_frame[OF assms(1) fr] have "screen_inv s1" .
  then have "screen_inv (move_cursor_absolute s1 (cursor_x s1) (cursor_y s1 + 1))"
    by (rule move_cursor_absolute_inv)
  then show ?thesis unfolding s1 by (simp add: screen_inv_def)
qed


lemma same_shape_inv: "screen_inv s \<Longrightarrow> same_shape s s' \<Longrightarrow> screen_inv s'"
  by (simp add: screen_inv_def same_shape_def)

lemma same_shape_trans: "same_shape s s1 \<Longrightarrow> same_shape s1 s' \<Longrightarrow> same_shape s s'"
  by (simp add: same_shape_def)

lemma erase_line_at_cursor_shape: "erase_line_at_cursor s = Inr s' \<Longrightarrow> same_shape s s'"
  by (auto simp: erase_line_at_cursor_def thenE_Inr_iff same_shape_def dest!: buf_length)

lemma erase_line_from_beginning_to_cursor_shape:
  "erase_line_from_beginning_to_cursor s = Inr s' \<Longrightarrow> same_shape s s'"
  by (auto simp: erase_line_from_beginning_to_cursor_def thenE_Inr_iff same_shape_def
      dest!: buf_length)

lemma erase_line_from_cursor_to_end_shape:
  "erase_line_from_cursor_to_end s = Inr s' \<Longrightarrow> same_shape s s'"
  by (auto simp: erase_line_from_cursor_to_end_def thenE_Inr_iff same_shape_def
      dest!: buf_length)

lemma erase_display_shape: "erase_display s = Inr s' \<Longrightarrow> same_shape s s'"
  by (auto simp: erase_display_def thenE_Inr_iff same_shape_def dest!: buf_length)

lemma erase_display_from_beginning_to_cursor_shape:
  "erase_display_from_beginning_to_cursor s = Inr s' \<Longrightarrow> same_shape s s'"
  by (auto simp: erase_display_from_beginning_to_cursor_def thenE_Inr_iff same_shape_def
      dest!: buf_length erase_line_from_beginning_to_cursor_shape)

lemma erase_display_from_cursor_to_end_shape:
  "erase_display_from_cursor_to_end s = Inr s' \<Longrightarrow> same_shape s s'"
  by (auto simp: erase_display_from_cursor_to_end_def thenE_Inr_iff same_shape_def
      dest!: buf_length erase_line_from_cursor_to_end_shape)

lemma insert_lines_at_cursor_shape:
  "insert_lines_at_cursor s n = Inr s' \<Longrightarrow> same_shape s s'"
  by (auto simp: insert_lines_at_cursor_def thenE_Inr_iff same_shape_def Let_def
      split: if_splits dest!: buf_length)

lemma delete_lines_at_cursor_shape:
  "delete_lines_at_cursor s n = Inr s' \<Longrightarrow> same_shape s s'"
  by (auto simp: delete_lines_at_cursor_def thenE_Inr_iff same_shape_def Let_def
      split: if_splits dest!: buf_length)

lemma delete_characters_at_cursor_shape:
  "delete_characters_at_cursor s n = Inr s' \<Longrightarrow> same_shape s s'"
  by (auto simp: delete_characters_at_cursor_def thenE_Inr_iff same_shape_def Let_def
      split: if_splits dest!: buf_length)

lemma sgr_param_inv: "screen_inv s \<Longrightarrow> screen_inv (sgr_param s p)"
  by (simp add: screen_inv_def sgr_param_def Let_def)

lemma sgr_loop_inv:
  "screen_inv s \<Longrightarrow> sgr_loop i s ps n = Inr s' \<Longrightarrow> screen_inv s'"
proof (induction i s ps n rule: sgr_loop.induct)
  case (1 i s cmd_params nr_params)
  show ?case
  proof (cases "i < nr_params")
    case True
    with "1.prems"(2) have ok: "0 \<le> i \<and> i < int (length cmd_params)"
      and rec: "sgr_loop (i + 1) (sgr_param s (cmd_params ! nat i)) cmd_params nr_params = Inr s'"
      by (auto simp: sgr_loop.simps[of i] split: if_splits)
    from "1.IH"[OF True ok sgr_param_inv[OF "1.prems"(1)] rec] show ?thesis .
  next
    case False
    with "1.prems" show ?thesis by (simp add: sgr_loop.simps[of i])
  qed
qed

lemma cursor_reverse_index_inv:
  assumes "screen_inv s" and "cursor_reverse_index s = Inr s'"
  shows "screen_inv s'"
proof -
  from assms(2) obtain s1 where s1: "s' = (move_cursor_relative s1 (cursor_x s1) (- 1))\<lparr>must_refresh := True\<rparr>"
    and fr: "same_shape s s1"
    by (auto simp: cursor_reverse_index_def thenE_Inr_iff same_shape_def
        split: if_splits dest!: buf_length)
  from same_shape_inv[OF assms(1) fr]
  have "screen_inv (move_cursor_relative s1 (cursor_x s1) (- 1))"
    by (rule move_cursor_relative_inv)
  then show ?thesis unfolding s1 by (simp add: screen_inv_def)
qed

lemma display_char_inv:
  assumes "screen_inv s" and "display_char s ch = Inr s'"
  shows "screen_inv s'"
proof (cases "cursor_x s + 1 = con_width s")
  case False
  with assms(2) obtain cb gb lb where
    "length cb = length (chbuf s)" "length gb = length (grbuf s)"
    "length lb = length (must_refresh_line_buf s)"
    "s' = s\<lparr>chbuf := cb, grbuf := gb, must_refresh_line_buf := lb,
            cursor_x := cursor_x s + 1, must_refresh := True\<rparr>"
    by (auto simp: display_char_def thenE_Inr_iff Let_def split: if_splits dest!: buf_length)
  with assms(1) False show ?thesis by (simp add: screen_inv_def)
next
  case True
  show ?thesis
  proof (cases "cursor_y s + 1 = con_height s")
    case False
    with True assms(2) obtain cb gb lb where
      "length cb = length (chbuf s)" "length gb = length (grbuf s)"
      "length lb = length (must_refresh_line_buf s)"
      "s' = s\<lparr>chbuf := cb, grbuf := gb, 
              cursor_x := 0, cursor_y := cursor_y s + 1, must_refresh_line_buf := lb, must_refresh := True\<rparr>"
      by (auto simp: display_char_def thenE_Inr_iff Let_def split: if_splits dest!: buf_length)
    with assms(1) False show ?thesis by (simp add: screen_inv_def)
  next
    case y: True
    with True assms(2) obtain cb gb lb s3 where
      len: "length cb = length (chbuf s)" "length gb = length (grbuf s)"
      "length lb = length (must_refresh_line_buf s)"
      and lf: "handle_linefeed (s\<lparr>chbuf := cb, grbuf := gb, must_refresh_line_buf := lb,
                   cursor_x := 0, cursor_y := con_height s - 1\<rparr>) = Inr s3"
      and s': "s' = s3\<lparr>must_refresh := True\<rparr>"
      by (auto simp: display_char_def thenE_Inr_iff Let_def split: if_splits dest!: buf_length)
    from assms(1) len have "screen_inv (s\<lparr>chbuf := cb, grbuf := gb, must_refresh_line_buf := lb,
                   cursor_x := 0, cursor_y := con_height s - 1\<rparr>)" by (simp add: screen_inv_def)
    from handle_linefeed_inv[OF this lf] show ?thesis unfolding s' by (simp add: screen_inv_def)
  qed
qed

lemma tab_loop_inv: "screen_inv s \<Longrightarrow> tab_loop n s = Inr s' \<Longrightarrow> screen_inv s'"
  by (induction n arbitrary: s) (auto simp: thenE_Inr_iff dest: display_char_inv)

lemma handle_horiz_tab_inv:
  assumes "screen_inv s" and "handle_horiz_tab s = Inr s'"
  shows "screen_inv s'"
proof -
  from assms(2) obtain n s1 where "tab_loop n s = Inr s1" and s': "s' = s1\<lparr>must_refresh := True\<rparr>"
    by (auto simp: handle_horiz_tab_def Let_def thenE_Inr_iff)
  with assms(1) have "screen_inv s1" by (blast intro: tab_loop_inv)
  then show ?thesis unfolding s' by (simp add: screen_inv_def)
qed


text \<open>The same for the part of the invariant that does not mention the buffers.\<close>

lemma move_cursor_relative_cursor_inv:
  "cursor_inv s \<Longrightarrow> cursor_inv (move_cursor_relative s dx dy)"
  by (simp add: cursor_inv_def move_cursor_relative_def Let_def)

lemma move_cursor_absolute_cursor_inv:
  "cursor_inv s \<Longrightarrow> cursor_inv (move_cursor_absolute s x y)"
  by (simp add: cursor_inv_def move_cursor_absolute_def Let_def)

lemma set_margins_cursor_inv:
  "cursor_inv s \<Longrightarrow> cursor_inv (set_top_and_bottom_margins s t b)"
  by (simp add: cursor_inv_def set_top_and_bottom_margins_def Let_def NR_MIN_VT102_SCREEN_ROWS_def)

lemma cursor_inv_frame:
  assumes "cursor_inv s"
    and "con_width s' = con_width s" and "con_height s' = con_height s"
    and "cursor_x s' = cursor_x s" and "cursor_y s' = cursor_y s"
    and "margin_top s' = margin_top s" and "margin_bottom s' = margin_bottom s"
    and "length (chbuf s') = length (chbuf s)" and "length (grbuf s') = length (grbuf s)"
    and "length (must_refresh_line_buf s') = length (must_refresh_line_buf s)"
  shows "cursor_inv s'"
  using assms by (simp add: cursor_inv_def)

lemma handle_linefeed_cursor_inv:
  assumes "cursor_inv s" and "handle_linefeed s = Inr s'"
  shows "cursor_inv s'"
proof -
  from assms(2) obtain s1 where s1: "s' = (move_cursor_absolute s1 (cursor_x s1) (cursor_y s1 + 1))\<lparr>must_refresh := True\<rparr>"
    and fr: "con_width s1 = con_width s" "con_height s1 = con_height s"
       "cursor_x s1 = cursor_x s" "cursor_y s1 = cursor_y s"
       "margin_top s1 = margin_top s" "margin_bottom s1 = margin_bottom s"
       "length (chbuf s1) = length (chbuf s)" "length (grbuf s1) = length (grbuf s)"
       "length (must_refresh_line_buf s1) = length (must_refresh_line_buf s)"
    by (auto simp: handle_linefeed_def thenE_Inr_iff split: if_splits dest!: buf_length)
  from cursor_inv_frame[OF assms(1) fr] have "cursor_inv s1" .
  then have "cursor_inv (move_cursor_absolute s1 (cursor_x s1) (cursor_y s1 + 1))"
    by (rule move_cursor_absolute_cursor_inv)
  then show ?thesis unfolding s1 by (simp add: cursor_inv_def)
qed

lemma same_shape_cursor_inv: "cursor_inv s \<Longrightarrow> same_shape s s' \<Longrightarrow> cursor_inv s'"
  by (simp add: cursor_inv_def same_shape_def)

lemma sgr_param_cursor_inv: "cursor_inv s \<Longrightarrow> cursor_inv (sgr_param s p)"
  by (simp add: cursor_inv_def sgr_param_def Let_def)

lemma sgr_loop_cursor_inv:
  "cursor_inv s \<Longrightarrow> sgr_loop i s ps n = Inr s' \<Longrightarrow> cursor_inv s'"
proof (induction i s ps n rule: sgr_loop.induct)
  case (1 i s cmd_params nr_params)
  show ?case
  proof (cases "i < nr_params")
    case True
    with "1.prems"(2) have ok: "0 \<le> i \<and> i < int (length cmd_params)"
      and rec: "sgr_loop (i + 1) (sgr_param s (cmd_params ! nat i)) cmd_params nr_params = Inr s'"
      by (auto simp: sgr_loop.simps[of i] split: if_splits)
    from "1.IH"[OF True ok sgr_param_cursor_inv[OF "1.prems"(1)] rec] show ?thesis .
  next
    case False
    with "1.prems" show ?thesis by (simp add: sgr_loop.simps[of i])
  qed
qed

lemma cursor_reverse_index_cursor_inv:
  assumes "cursor_inv s" and "cursor_reverse_index s = Inr s'"
  shows "cursor_inv s'"
proof -
  from assms(2) obtain s1 where s1: "s' = (move_cursor_relative s1 (cursor_x s1) (- 1))\<lparr>must_refresh := True\<rparr>"
    and fr: "same_shape s s1"
    by (auto simp: cursor_reverse_index_def thenE_Inr_iff same_shape_def
        split: if_splits dest!: buf_length)
  from same_shape_cursor_inv[OF assms(1) fr]
  have "cursor_inv (move_cursor_relative s1 (cursor_x s1) (- 1))"
    by (rule move_cursor_relative_cursor_inv)
  then show ?thesis unfolding s1 by (simp add: cursor_inv_def)
qed

lemma display_char_cursor_inv:
  assumes "cursor_inv s" and "display_char s ch = Inr s'"
  shows "cursor_inv s'"
proof (cases "cursor_x s + 1 = con_width s")
  case False
  with assms(2) obtain cb gb lb where
    "length cb = length (chbuf s)" "length gb = length (grbuf s)"
    "length lb = length (must_refresh_line_buf s)"
    "s' = s\<lparr>chbuf := cb, grbuf := gb, must_refresh_line_buf := lb,
            cursor_x := cursor_x s + 1, must_refresh := True\<rparr>"
    by (auto simp: display_char_def thenE_Inr_iff Let_def split: if_splits dest!: buf_length)
  with assms(1) False show ?thesis by (simp add: cursor_inv_def)
next
  case True
  show ?thesis
  proof (cases "cursor_y s + 1 = con_height s")
    case False
    with True assms(2) obtain cb gb lb where
      "length cb = length (chbuf s)" "length gb = length (grbuf s)"
      "length lb = length (must_refresh_line_buf s)"
      "s' = s\<lparr>chbuf := cb, grbuf := gb, 
              cursor_x := 0, cursor_y := cursor_y s + 1, must_refresh_line_buf := lb, must_refresh := True\<rparr>"
      by (auto simp: display_char_def thenE_Inr_iff Let_def split: if_splits dest!: buf_length)
    with assms(1) False show ?thesis by (simp add: cursor_inv_def)
  next
    case y: True
    with True assms(2) obtain cb gb lb s3 where
      len: "length cb = length (chbuf s)" "length gb = length (grbuf s)"
      "length lb = length (must_refresh_line_buf s)"
      and lf: "handle_linefeed (s\<lparr>chbuf := cb, grbuf := gb, must_refresh_line_buf := lb,
                   cursor_x := 0, cursor_y := con_height s - 1\<rparr>) = Inr s3"
      and s': "s' = s3\<lparr>must_refresh := True\<rparr>"
      by (auto simp: display_char_def thenE_Inr_iff Let_def split: if_splits dest!: buf_length)
    from assms(1) len have "cursor_inv (s\<lparr>chbuf := cb, grbuf := gb, must_refresh_line_buf := lb,
                   cursor_x := 0, cursor_y := con_height s - 1\<rparr>)" by (simp add: cursor_inv_def)
    from handle_linefeed_cursor_inv[OF this lf] show ?thesis unfolding s' by (simp add: cursor_inv_def)
  qed
qed

lemma tab_loop_cursor_inv: "cursor_inv s \<Longrightarrow> tab_loop n s = Inr s' \<Longrightarrow> cursor_inv s'"
  by (induction n arbitrary: s) (auto simp: thenE_Inr_iff dest: display_char_cursor_inv)

lemma handle_horiz_tab_cursor_inv:
  assumes "cursor_inv s" and "handle_horiz_tab s = Inr s'"
  shows "cursor_inv s'"
proof -
  from assms(2) obtain n s1 where "tab_loop n s = Inr s1" and s': "s' = s1\<lparr>must_refresh := True\<rparr>"
    by (auto simp: handle_horiz_tab_def Let_def thenE_Inr_iff)
  with assms(1) have "cursor_inv s1" by (blast intro: tab_loop_cursor_inv)
  then show ?thesis unfolding s' by (simp add: cursor_inv_def)
qed

lemma copy_rows_length:
  "copy_rows i h w nw s cb gb = Inr (cb', gb') \<Longrightarrow> length cb' = length cb \<and> length gb' = length gb"
proof (induction i h w nw s cb gb rule: copy_rows.induct)
  case (1 i h w new_width s cb gb)
  show ?case
  proof (cases "i < h")
    case True
    with "1.prems" obtain cb1 gb1 where
      m1: "memcpy cb (i * new_width) (chbuf s) (i * con_width s) w = Inr cb1"
      and m2: "memcpy gb (i * new_width) (grbuf s) (i * con_width s) w = Inr gb1"
      and rec: "copy_rows (i + 1) h w new_width s cb1 gb1 = Inr (cb', gb')"
      by (auto simp: copy_rows.simps[of i] thenE_Inr_iff)
    from "1.IH"[OF True rec] memcpy_length[OF m1] memcpy_length[OF m2]
    show ?thesis by simp
  next
    case False
    with "1.prems" show ?thesis by (simp add: copy_rows.simps[of i])
  qed
qed

lemma resize_buffers_cursor_inv:
  assumes "cursor_inv s" and "vt102_generic_backend_resize_buffers s nw nh = Inr s'"
  shows "cursor_inv s'"
proof -
  define w1 where "w1 = (if nw < NR_MIN_VT102_SCREEN_COLUMNS then NR_MIN_VT102_SCREEN_COLUMNS else nw)"
  define h1 where "h1 = (if nh < NR_MIN_VT102_SCREEN_ROWS then NR_MIN_VT102_SCREEN_ROWS else nh)"
  have w1: "NR_MIN_VT102_SCREEN_COLUMNS \<le> w1" and h1: "NR_MIN_VT102_SCREEN_ROWS \<le> h1"
    by (simp_all add: w1_def h1_def)
  from assms(2) obtain cb gb where
    s': "s' = s\<lparr>chbuf := cb, grbuf := gb,
                    must_refresh_line_buf := replicate (nat h1) True,
                    must_refresh := True,
                    con_width := w1, con_height := h1,
                    cursor_x := (if cursor_x s \<ge> w1 then w1 - 1 else cursor_x s),
                    cursor_y := (if cursor_y s \<ge> h1 then h1 - 1 else cursor_y s),
                    margin_top := 0, margin_bottom := h1 - 1\<rparr>"
    by (auto simp: vt102_generic_backend_resize_buffers_def Let_def thenE_Inr_iff
        w1_def h1_def split: if_splits)
  from assms(1) w1 h1 show ?thesis unfolding s'
    by (simp add: cursor_inv_def NR_MIN_VT102_SCREEN_COLUMNS_def NR_MIN_VT102_SCREEN_ROWS_def)
qed

lemma resize_buffers_inv:
  assumes "screen_inv s" and fits: "size_fits nw nh"
    and "vt102_generic_backend_resize_buffers s nw nh = Inr s'"
  shows "screen_inv s'"
proof -
  define w1 where "w1 = (if nw < NR_MIN_VT102_SCREEN_COLUMNS then NR_MIN_VT102_SCREEN_COLUMNS else nw)"
  define h1 where "h1 = (if nh < NR_MIN_VT102_SCREEN_ROWS then NR_MIN_VT102_SCREEN_ROWS else nh)"
  have m: "w1 = max NR_MIN_VT102_SCREEN_COLUMNS nw" "h1 = max NR_MIN_VT102_SCREEN_ROWS nh"
    by (simp_all add: w1_def h1_def)
  from size_fits_mul[OF fits] have nm: "int_mul w1 h1 = w1 * h1" and pos: "0 \<le> w1 * h1"
    by (simp_all add: m)
  from assms(3) obtain cb gb h w where
    cr: "copy_rows 0 h w w1 s (replicate (nat (int_mul w1 h1)) 0x20)
           (replicate (nat (int_mul w1 h1)) 0) = Inr (cb, gb)"
    and s': "s' = s\<lparr>chbuf := cb, grbuf := gb,
                    must_refresh_line_buf := replicate (nat h1) True,
                    must_refresh := True,
                    con_width := w1, con_height := h1,
                    cursor_x := (if cursor_x s \<ge> w1 then w1 - 1 else cursor_x s),
                    cursor_y := (if cursor_y s \<ge> h1 then h1 - 1 else cursor_y s),
                    margin_top := 0, margin_bottom := h1 - 1\<rparr>"
    by (auto simp: vt102_generic_backend_resize_buffers_def Let_def thenE_Inr_iff
        w1_def h1_def split: if_splits)
  from copy_rows_length[OF cr] pos nm
  have len: "int (length cb) = w1 * h1" "int (length gb) = w1 * h1"
    by simp_all
  from resize_buffers_cursor_inv[OF screen_inv_cursor_inv[OF assms(1)] assms(3)]
  have c: "cursor_inv s'" .
  have d: "con_width s' = w1" "con_height s' = h1" "chbuf s' = cb" "grbuf s' = gb"
    "must_refresh_line_buf s' = replicate (nat h1) True"
    unfolding s' by simp_all
  from c have "0 \<le> con_height s'" by (simp add: cursor_inv_def NR_MIN_VT102_SCREEN_ROWS_def)
  with c d len show ?thesis by (simp add: screen_inv_def cursor_inv_def)
qed

lemma screen_inv_must_refresh [simp]: "screen_inv (s\<lparr>must_refresh := b\<rparr>) = screen_inv s"
  by (simp add: screen_inv_def)

lemma cursor_inv_must_refresh [simp]: "cursor_inv (s\<lparr>must_refresh := b\<rparr>) = cursor_inv s"
  by (simp add: cursor_inv_def)

lemma apply_op_inv:
  "screen_inv s \<Longrightarrow> op_fits x \<Longrightarrow> apply_op x s = Inr s' \<Longrightarrow> screen_inv s'"
proof (cases x)
  case (DisplayChar ch)
  then show "screen_inv s \<Longrightarrow> op_fits x \<Longrightarrow> apply_op x s = Inr s' \<Longrightarrow> screen_inv s'"
    by (simp add: display_char_inv)
qed (auto simp: move_cursor_column_absolute_def handle_backspace_def handle_carriage_return_def
      select_graphic_rendition_def
      intro: move_cursor_relative_inv move_cursor_absolute_inv set_margins_inv
      dest: same_shape_inv[OF _ erase_line_at_cursor_shape]
            same_shape_inv[OF _ erase_line_from_beginning_to_cursor_shape]
            same_shape_inv[OF _ erase_line_from_cursor_to_end_shape]
            same_shape_inv[OF _ erase_display_shape]
            same_shape_inv[OF _ erase_display_from_beginning_to_cursor_shape]
            same_shape_inv[OF _ erase_display_from_cursor_to_end_shape]
            same_shape_inv[OF _ insert_lines_at_cursor_shape]
            same_shape_inv[OF _ delete_lines_at_cursor_shape]
            same_shape_inv[OF _ delete_characters_at_cursor_shape]
            handle_horiz_tab_inv handle_linefeed_inv cursor_reverse_index_inv
            sgr_loop_inv resize_buffers_inv)

lemma apply_op_cursor_inv: "cursor_inv s \<Longrightarrow> apply_op x s = Inr s' \<Longrightarrow> cursor_inv s'"
proof (cases x)
  case (DisplayChar ch)
  then show "cursor_inv s \<Longrightarrow> apply_op x s = Inr s' \<Longrightarrow> cursor_inv s'"
    by (simp add: display_char_cursor_inv)
qed (auto simp: move_cursor_column_absolute_def handle_backspace_def handle_carriage_return_def
      select_graphic_rendition_def
      intro: move_cursor_relative_cursor_inv move_cursor_absolute_cursor_inv
             set_margins_cursor_inv
      dest: same_shape_cursor_inv[OF _ erase_line_at_cursor_shape]
            same_shape_cursor_inv[OF _ erase_line_from_beginning_to_cursor_shape]
            same_shape_cursor_inv[OF _ erase_line_from_cursor_to_end_shape]
            same_shape_cursor_inv[OF _ erase_display_shape]
            same_shape_cursor_inv[OF _ erase_display_from_beginning_to_cursor_shape]
            same_shape_cursor_inv[OF _ erase_display_from_cursor_to_end_shape]
            same_shape_cursor_inv[OF _ insert_lines_at_cursor_shape]
            same_shape_cursor_inv[OF _ delete_lines_at_cursor_shape]
            same_shape_cursor_inv[OF _ delete_characters_at_cursor_shape]
            handle_horiz_tab_cursor_inv handle_linefeed_cursor_inv
            cursor_reverse_index_cursor_inv sgr_loop_cursor_inv resize_buffers_cursor_inv)

text \<open>Every reachable state has its cursor and margins on the screen.\<close>

lemma reachable_cursor_inv: "reachable s \<Longrightarrow> cursor_inv s"
  by (induction rule: reachable.induct) (auto intro: init_cursor_inv apply_op_cursor_inv)

text \<open>
  A screen created and resized with sizes whose product fits an \<open>int\<close> has buffers of one
  byte for each cell.
\<close>

lemma run_ops_screen_inv:
  "screen_inv s \<Longrightarrow> list_all op_fits xs \<Longrightarrow> run_ops xs s = Inr s' \<Longrightarrow> screen_inv s'"
  by (induction xs arbitrary: s) (auto simp: thenE_Inr_iff dest: apply_op_inv)

lemma reachable_run_ops: "reachable s \<Longrightarrow> run_ops xs s = Inr s' \<Longrightarrow> reachable s'"
  by (induction xs arbitrary: s) (auto simp: thenE_Inr_iff intro: reachable_step)

lemma cell_index_bound:
  fixes x y w h :: int
  assumes "0 \<le> x" "x < w" "0 \<le> y" "y < h"
  shows "0 \<le> y * w + x" and "y * w + x < w * h"
proof -
  from assms have w: "0 < w" by simp
  from assms w show "0 \<le> y * w + x" by simp
  from assms have "y + 1 \<le> h" by simp
  with w have "(y + 1) * w \<le> h * w" by (intro mult_right_mono) simp_all
  with assms show "y * w + x < w * h" by (simp add: algebra_simps)
qed

lemma row_offset_bound:
  fixes y w h :: int
  assumes "0 \<le> y" "y \<le> h" "0 \<le> w"
  shows "0 \<le> y * w" and "y * w \<le> w * h"
proof -
  from assms show "0 \<le> y * w" by simp
  from assms have "y * w \<le> h * w" by (intro mult_right_mono) simp_all
  then show "y * w \<le> w * h" by (simp add: mult.commute)
qed

lemma memset_ok:
  "0 \<le> off \<Longrightarrow> 0 \<le> n \<Longrightarrow> off + n \<le> int (length buf) \<Longrightarrow> \<exists>b. memset buf off c n = Inr b"
  by (simp add: memset_def)

lemma memmove_ok:
  "0 \<le> dst \<Longrightarrow> 0 \<le> src \<Longrightarrow> 0 \<le> n \<Longrightarrow> dst + n \<le> int (length buf)
     \<Longrightarrow> src + n \<le> int (length buf) \<Longrightarrow> \<exists>b. memmove buf dst src n = Inr b"
  by (simp add: memmove_def)

lemma store_ok: "0 \<le> i \<Longrightarrow> i < int (length buf) \<Longrightarrow> \<exists>b. store buf i v = Inr b"
  by (simp add: store_def)

lemma handle_linefeed_total:
  assumes "screen_inv s"
  shows "\<exists>s'. handle_linefeed s = Inr s'"
proof (cases "cursor_y s = margin_bottom s")
  case False
  then show ?thesis by (simp add: handle_linefeed_def)
next
  case True
  let ?w = "con_width s" and ?h = "con_height s"
  let ?mt = "margin_top s" and ?mb = "margin_bottom s"
  from assms have inv: "0 < ?w" "0 \<le> ?mt" "?mt < ?mb" "?mb + 1 \<le> ?h"
    "int (length (chbuf s)) = ?w * ?h" "int (length (grbuf s)) = ?w * ?h"
    "int (length (must_refresh_line_buf s)) = ?h"
    by (simp_all add: screen_inv_def NR_MIN_VT102_SCREEN_COLUMNS_def)
  have a: "0 \<le> ?mt * ?w" "0 \<le> (?mt + 1) * ?w" "0 \<le> (?mb - ?mt) * ?w" "0 \<le> ?mb * ?w"
    using inv by simp_all
  have "(?mb + 1) * ?w \<le> ?w * ?h" using inv by (intro row_offset_bound) simp_all
  then have b: "?mt * ?w + (?mb - ?mt) * ?w \<le> ?w * ?h"
    "(?mt + 1) * ?w + (?mb - ?mt) * ?w \<le> ?w * ?h" "?mb * ?w + ?w \<le> ?w * ?h"
    using inv by (simp_all add: algebra_simps)
  from a b inv obtain cb where cb: "memmove (chbuf s) (?mt * ?w) ((?mt + 1) * ?w) ((?mb - ?mt) * ?w) = Inr cb"
    using memmove_ok[of "?mt * ?w" "(?mt + 1) * ?w" "(?mb - ?mt) * ?w" "chbuf s"] by auto
  from a b inv obtain gb where gb: "memmove (grbuf s) (?mt * ?w) ((?mt + 1) * ?w) ((?mb - ?mt) * ?w) = Inr gb"
    using memmove_ok[of "?mt * ?w" "(?mt + 1) * ?w" "(?mb - ?mt) * ?w" "grbuf s"] by auto
  from a b inv memmove_length[OF cb] obtain cb' where cb': "memset cb (?mb * ?w) 0x20 ?w = Inr cb'"
    using memset_ok[of "?mb * ?w" ?w cb] by auto
  from a b inv memmove_length[OF gb] obtain gb' where gb': "memset gb (?mb * ?w) 0 ?w = Inr gb'"
    using memset_ok[of "?mb * ?w" ?w gb] by auto
  from inv obtain lb where lb: "memset (must_refresh_line_buf s) ?mt True (?mb - ?mt + 1) = Inr lb"
    using memset_ok[of ?mt "?mb - ?mt + 1" "must_refresh_line_buf s"] by auto
  from True cb gb cb' gb' lb show ?thesis by (simp add: handle_linefeed_def)
qed

lemma display_char_total:
  assumes "screen_inv s"
  shows "\<exists>s'. display_char s ch = Inr s'"
proof -
  let ?w = "con_width s" and ?h = "con_height s"
  let ?cx = "cursor_x s" and ?cy = "cursor_y s"
  from assms have inv: "0 \<le> ?cx" "?cx < ?w" "0 \<le> ?cy" "?cy < ?h"
    "int (length (chbuf s)) = ?w * ?h" "int (length (grbuf s)) = ?w * ?h"
    "int (length (must_refresh_line_buf s)) = ?h"
    by (simp_all add: screen_inv_def)
  from cell_index_bound[OF inv(1-4)] have idx: "0 \<le> ?cy * ?w + ?cx" "?cy * ?w + ?cx < ?w * ?h" .
  from idx inv obtain cb where cb: "store (chbuf s) (?cy * ?w + ?cx) (of_nat ch) = Inr cb"
    using store_ok[of "?cy * ?w + ?cx" "chbuf s"] by auto
  from idx inv obtain gb where gb: "store (grbuf s) (?cy * ?w + ?cx)
         (word_of_int (cur_fg_gc_idx s OR push_bit 4 (cur_bg_gc_idx s))) = Inr gb"
    using store_ok[of "?cy * ?w + ?cx" "grbuf s"] by auto
  from inv obtain lb where lb: "store (must_refresh_line_buf s) ?cy True = Inr lb"
    using store_ok[of ?cy "must_refresh_line_buf s"] by auto
  note len = store_length[OF cb] store_length[OF gb] store_length[OF lb]
  show ?thesis
  proof (cases "?cx + 1 = ?w")
    case False
    with inv cb gb lb show ?thesis by (simp add: display_char_def Let_def)
  next
    case True
    show ?thesis
    proof (cases "?cy + 1 = ?h")
      case False
      with inv len obtain lb2 where "store lb (?cy + 1) True = Inr lb2"
        using store_ok[of "?cy + 1" lb] by auto
      with False True inv cb gb lb show ?thesis by (simp add: display_char_def Let_def)
    next
      case y: True
      let ?t = "s\<lparr>chbuf := cb, grbuf := gb, must_refresh_line_buf := lb,
                   cursor_x := 0, cursor_y := ?cy + 1 - 1\<rparr>"
      from assms len have "screen_inv ?t" by (simp add: screen_inv_def)
      from handle_linefeed_total[OF this] obtain s3 where "handle_linefeed ?t = Inr s3" ..
      with y True inv cb gb lb show ?thesis by (simp add: display_char_def Let_def)
    qed
  qed
qed

text \<open>The number of spaces a tab writes.\<close>

lemma and_not_7: "(k::int) AND NOT 7 = 8 * (k div 8)"
proof -
  have m: "(7::int) = mask 3" by (simp add: mask_eq_exp_minus_1)
  have "k AND NOT (mask 3) = push_bit 3 (drop_bit 3 k)"
    by (rule bit_eqI) (auto simp: bit_simps)
  then show ?thesis unfolding m by (simp add: push_bit_eq_mult drop_bit_eq_div)
qed

lemma tab_count_range:
  fixes x :: int
  shows "1 \<le> ((x + 8) AND NOT 7) - x \<and> ((x + 8) AND NOT 7) - x \<le> 8"
proof -
  have "8 * ((x + 8) div 8) = x + 8 - (x + 8) mod 8"
    by (simp add: algebra_simps minus_mod_eq_mult_div [symmetric])
  moreover have "0 \<le> (x + 8) mod 8" "(x + 8) mod 8 < 8" by simp_all
  ultimately show ?thesis unfolding and_not_7 by linarith
qed

lemma tab_loop_total: "screen_inv s \<Longrightarrow> \<exists>s'. tab_loop n s = Inr s'"
proof (induction n arbitrary: s)
  case 0
  then show ?case by simp
next
  case (Suc n)
  from display_char_total[OF Suc.prems] obtain s1 where s1: "display_char s 0x20 = Inr s1" ..
  from display_char_inv[OF Suc.prems s1] have "screen_inv s1" .
  from Suc.IH[OF this] s1 show ?case by simp
qed

lemma handle_horiz_tab_total: "screen_inv s \<Longrightarrow> \<exists>s'. handle_horiz_tab s = Inr s'"
  using tab_loop_total[of s] by (auto simp: handle_horiz_tab_def Let_def thenE_Inr_iff)


subsection \<open>Reading a buffer after a block operation\<close>

lemma splice_nth:
  assumes "d + m \<le> length xs" and "length ys = m" and "j < length xs"
  shows "(take d xs @ ys @ drop (d + m) xs) ! j = (if d \<le> j \<and> j < d + m then ys ! (j - d) else xs ! j)"
proof -
  from assms have ld: "min (length xs) d = d" by simp
  consider "j < d" | "d \<le> j" "j < d + m" | "d + m \<le> j" by linarith
  then show ?thesis
  proof cases
    case 1
    with assms show ?thesis by (simp add: nth_append ld)
  next
    case 2
    then have "\<not> j < d" "j - d < m" by linarith+
    with 2 assms(2) show ?thesis by (simp add: nth_append ld)
  next
    case 3
    then have a: "\<not> j < d" "\<not> j - d < m" "\<not> (d \<le> j \<and> j < d + m)" by linarith+
    from 3 have e: "d + m + (j - d - m) = j" by linarith
    from 3 assms have "drop (d + m) xs ! (j - d - m) = xs ! (d + m + (j - d - m))"
      by (intro nth_drop) simp
    with a e assms(2) show ?thesis by (simp add: nth_append ld)
  qed
qed

lemma memset_nth:
  assumes "memset buf off c n = Inr b" and "0 \<le> j" and "j < int (length buf)"
  shows "b ! nat j = (if off \<le> j \<and> j < off + n then c else buf ! nat j)"
proof -
  from assms(1) have ok: "0 \<le> off" "0 \<le> n" "off + n \<le> int (length buf)"
    and b: "b = take (nat off) buf @ replicate (nat n) c @ drop (nat (off + n)) buf"
    by (auto simp: memset_def split: if_splits)
  from ok have e: "nat (off + n) = nat off + nat n" by (simp add: nat_add_distrib)
  from ok have le: "nat off + nat n \<le> length buf" by linarith
  from assms have j: "nat j < length buf" by linarith
  have c: "(off \<le> j \<and> j < off + n) = (nat off \<le> nat j \<and> nat j < nat off + nat n)"
    using ok assms(2) by linarith
  have "b ! nat j = (if nat off \<le> nat j \<and> nat j < nat off + nat n
                     then replicate (nat n) c ! (nat j - nat off) else buf ! nat j)"
    unfolding b e using splice_nth[OF le, of "replicate (nat n) c" "nat j"] j by simp
  moreover have "nat off \<le> nat j \<and> nat j < nat off + nat n \<Longrightarrow> nat j - nat off < nat n"
    by linarith
  ultimately show ?thesis unfolding c by auto
qed

lemma memcpy_nth:
  assumes "memcpy dbuf dst sbuf src n = Inr b" and "0 \<le> j" and "j < int (length dbuf)"
  shows "b ! nat j = (if dst \<le> j \<and> j < dst + n then sbuf ! nat (src + (j - dst)) else dbuf ! nat j)"
proof -
  from assms(1) have ok: "0 \<le> dst" "0 \<le> src" "0 \<le> n" "dst + n \<le> int (length dbuf)"
      "src + n \<le> int (length sbuf)"
    and b: "b = take (nat dst) dbuf @ take (nat n) (drop (nat src) sbuf) @ drop (nat (dst + n)) dbuf"
    by (auto simp: memcpy_def split: if_splits)
  from ok have e: "nat (dst + n) = nat dst + nat n" by (simp add: nat_add_distrib)
  from ok have le: "nat dst + nat n \<le> length dbuf" and sle: "nat src + nat n \<le> length sbuf"
    by linarith+
  from assms have j: "nat j < length dbuf" by linarith
  have c: "(dst \<le> j \<and> j < dst + n) = (nat dst \<le> nat j \<and> nat j < nat dst + nat n)"
    using ok assms(2) by linarith
  have len: "length (take (nat n) (drop (nat src) sbuf)) = nat n" using sle by simp
  have sp: "b ! nat j = (if nat dst \<le> nat j \<and> nat j < nat dst + nat n
                     then take (nat n) (drop (nat src) sbuf) ! (nat j - nat dst)
                     else dbuf ! nat j)"
    unfolding b e using splice_nth[OF le len j] by simp
  show ?thesis
  proof (cases "nat dst \<le> nat j \<and> nat j < nat dst + nat n")
    case False
    with sp show ?thesis unfolding c by auto
  next
    case True
    then have k: "nat j - nat dst < nat n" by linarith
    from True ok assms(2) have i: "nat (src + (j - dst)) = nat src + (nat j - nat dst)" by linarith
    from k sle have "take (nat n) (drop (nat src) sbuf) ! (nat j - nat dst) = sbuf ! (nat src + (nat j - nat dst))"
      by simp
    with True sp show ?thesis unfolding c i by simp
  qed
qed

lemma memmove_memcpy: "memmove buf dst src n = memcpy buf dst buf src n"
  by (simp add: memmove_def memcpy_def)

lemma memmove_nth:
  assumes "memmove buf dst src n = Inr b" and "0 \<le> j" and "j < int (length buf)"
  shows "b ! nat j = (if dst \<le> j \<and> j < dst + n then buf ! nat (src + (j - dst)) else buf ! nat j)"
  using memcpy_nth[of buf dst buf src n b j] assms by (simp add: memmove_memcpy)

lemma store_nth:
  assumes "store buf i v = Inr b" and "0 \<le> j" and "j < int (length buf)"
  shows "b ! nat j = (if j = i then v else buf ! nat j)"
  using assms by (auto simp: store_def nth_list_update split: if_splits)


section \<open>The cursor stays on the screen\<close>

text \<open>The buffer primitives and the line feed fail with \<open>OutOfBounds\<close> only.\<close>

lemma thenE_no_null:
  assumes "m \<noteq> Inl NullPointerWrite" and "\<And>x. m = Inr x \<Longrightarrow> f x \<noteq> Inl NullPointerWrite"
  shows "thenE m f \<noteq> Inl NullPointerWrite"
  using assms by (cases m) simp_all

lemma prim_no_null:
  "store buf i v \<noteq> Inl NullPointerWrite"
  "memset buf off c n \<noteq> Inl NullPointerWrite"
  "memmove buf dst src n \<noteq> Inl NullPointerWrite"
  by (simp_all add: store_def memset_def memmove_def)

lemma handle_linefeed_no_null: "handle_linefeed s \<noteq> Inl NullPointerWrite"
  unfolding handle_linefeed_def
  by (intro thenE_no_null prim_no_null) (simp_all add: thenE_no_null prim_no_null)

lemma display_char_no_null:
  assumes "cursor_x s < con_width s" and "cursor_y s < con_height s"
  shows "display_char s ch \<noteq> Inl NullPointerWrite"
proof -
  have "thenE m (\<lambda>t. Inr (g t)) \<noteq> Inl NullPointerWrite" if "m \<noteq> Inl NullPointerWrite"
    for m :: "fault + term_data" and g :: "term_data \<Rightarrow> term_data"
    using that by (intro thenE_no_null) simp_all
  note fin = this
  from assms show ?thesis
    unfolding display_char_def Let_def
    by (simp, intro thenE_no_null prim_no_null)
       (simp_all add: handle_linefeed_no_null thenE_no_null prim_no_null)
qed

lemma tab_loop_no_null: "cursor_inv s \<Longrightarrow> tab_loop n s \<noteq> Inl NullPointerWrite"
proof (induction n arbitrary: s)
  case 0
  then show ?case by simp
next
  case (Suc n)
  from Suc.prems have g: "cursor_x s < con_width s" "cursor_y s < con_height s"
    by (simp_all add: cursor_inv_def)
  show ?case
  proof (cases "display_char s 0x20")
    case (Inl e)
    with display_char_no_null[OF g, of "0x20"] show ?thesis by simp
  next
    case (Inr s1)
    from display_char_cursor_inv[OF Suc.prems Inr] have "cursor_inv s1" .
    from Suc.IH[OF this] Inr show ?thesis by simp
  qed
qed

lemma handle_horiz_tab_no_null: "cursor_inv s \<Longrightarrow> handle_horiz_tab s \<noteq> Inl NullPointerWrite"
  unfolding handle_horiz_tab_def Let_def
  by (intro thenE_no_null tab_loop_no_null) simp_all

text \<open>
  Claim C1. In every state reachable from \<open>init_vt102_generic_backend\<close> by backend
  operations, \<open>cursor_x < con_width\<close> and \<open>cursor_y < con_height\<close> hold, so that
  \<open>display_char\<close> passes both guards: neither it nor a call that \<open>handle_horiz_tab\<close> makes
  to it executes a write through the null pointer. Where the buffers have one byte for each
  cell, both operations complete.
\<close>

theorem display_char_guards_hold:
  assumes "reachable s"
  shows "cursor_x s < con_width s \<and> cursor_y s < con_height s
         \<and> display_char s ch \<noteq> Inl NullPointerWrite
         \<and> handle_horiz_tab s \<noteq> Inl NullPointerWrite
         \<and> (screen_inv s \<longrightarrow> (\<exists>s'. display_char s ch = Inr s' \<and> reachable s')
                             \<and> (\<exists>s'. handle_horiz_tab s = Inr s' \<and> reachable s'))"
proof -
  from reachable_cursor_inv[OF assms] have inv: "cursor_inv s" .
  then have g: "cursor_x s < con_width s" "cursor_y s < con_height s"
    by (simp_all add: cursor_inv_def)
  have c: "(\<exists>s'. display_char s ch = Inr s' \<and> reachable s')
           \<and> (\<exists>s'. handle_horiz_tab s = Inr s' \<and> reachable s')" if si: "screen_inv s"
  proof -
    from display_char_total[OF si] obtain s1 where s1: "display_char s ch = Inr s1" ..
    from handle_horiz_tab_total[OF si] obtain s2 where s2: "handle_horiz_tab s = Inr s2" ..
    have "reachable s1" using reachable_step[OF assms, of "DisplayChar ch" s1] s1 by simp
    moreover have "reachable s2" using reachable_step[OF assms, of HandleHorizTab s2] s2 by simp
    ultimately show ?thesis using s1 s2 by simp
  qed
  from g display_char_no_null[OF g] handle_horiz_tab_no_null[OF inv] c show ?thesis by blast
qed

theorem display_char_guards_hold_witness:
  "case run_ops [MoveCursorAbsolute 8 1, HandleHorizTab, SetTopAndBottomMargins 0 0,
                 DeleteLinesAtCursor 1, CursorReverseIndex]
          (init_vt102_generic_backend 10 3) of
     Inl e \<Rightarrow> False
   | Inr t \<Rightarrow> reachable t \<and> screen_inv t
              \<and> cursor_x t < con_width t \<and> cursor_y t < con_height t
              \<and> display_char t 65 \<noteq> Inl NullPointerWrite
              \<and> handle_horiz_tab t \<noteq> Inl NullPointerWrite
              \<and> (\<exists>s'. display_char t 65 = Inr s' \<and> reachable s')
              \<and> (\<exists>s'. handle_horiz_tab t = Inr s' \<and> reachable s')"
proof -
  let ?r = "run_ops [MoveCursorAbsolute 8 1, HandleHorizTab, SetTopAndBottomMargins 0 0,
                 DeleteLinesAtCursor 1, CursorReverseIndex]
          (init_vt102_generic_backend 10 3)"
  have f: "size_fits 10 3"
    by (simp add: size_fits_def NR_MIN_VT102_SCREEN_COLUMNS_def NR_MIN_VT102_SCREEN_ROWS_def)
  have "\<not> isl ?r" by code_simp
  then obtain t where r: "?r = Inr t" by (cases ?r) auto
  have t: "reachable t" by (rule reachable_run_ops[OF reachable_init_fits[OF f] r])
  have i: "screen_inv t" by (rule run_ops_screen_inv[OF init_inv[OF f] _ r]) simp
  from display_char_guards_hold[OF t, of 65] t i show ?thesis unfolding r by simp
qed

text \<open>
  Claim C2. After \<open>init_vt102_generic_backend\<close> and after every completed backend
  operation, whatever its integer arguments, the cursor satisfies
  \<open>0 \<le> cursor_x < con_width\<close> and \<open>0 \<le> cursor_y < con_height\<close>.
\<close>

theorem cursor_in_bounds:
  assumes "reachable s"
  shows "0 \<le> cursor_x s \<and> cursor_x s < con_width s \<and> 0 \<le> cursor_y s \<and> cursor_y s < con_height s"
  using reachable_cursor_inv[OF assms] by (simp add: cursor_inv_def)

theorem cursor_in_bounds_witness:
  "case run_ops [MoveCursorAbsolute 9 1, DisplayChar 65, MoveCursorRelative 2147483647 (- 5),
                 ResizeBuffers 3 1]
          (init_vt102_generic_backend 10 2) of
     Inl e \<Rightarrow> False
   | Inr t \<Rightarrow> reachable t \<and> 0 \<le> cursor_x t \<and> cursor_x t < con_width t
              \<and> 0 \<le> cursor_y t \<and> cursor_y t < con_height t"
proof -
  let ?r = "run_ops [MoveCursorAbsolute 9 1, DisplayChar 65, MoveCursorRelative 2147483647 (- 5),
                 ResizeBuffers 3 1] (init_vt102_generic_backend 10 2)"
  have f: "size_fits 10 2"
    by (simp add: size_fits_def NR_MIN_VT102_SCREEN_COLUMNS_def NR_MIN_VT102_SCREEN_ROWS_def)
  have "\<not> isl ?r" by code_simp
  then obtain t where r: "?r = Inr t" by (cases ?r) auto
  have t: "reachable t" by (rule reachable_run_ops[OF reachable_init_fits[OF f] r])
  from cursor_in_bounds[OF t] t show ?thesis unfolding r by simp
qed

section \<open>Graphic rendition\<close>

lemma sgr_loop_fold:
  assumes "0 \<le> i" and "nr_params \<le> int (length cmd_params)"
  shows "sgr_loop i s cmd_params nr_params
         = Inr (fold (\<lambda>p t. sgr_param t p) (drop (nat i) (take (nat nr_params) cmd_params)) s)"
  using assms
proof (induction i s cmd_params nr_params rule: sgr_loop.induct)
  case (1 i s cmd_params nr_params)
  show ?case
  proof (cases "i < nr_params")
    case False
    with "1.prems" have "drop (nat i) (take (nat nr_params) cmd_params) = []" by simp
    with False show ?thesis by (simp add: sgr_loop.simps[of i])
  next
    case True
    with "1.prems" have ok: "0 \<le> i \<and> i < int (length cmd_params)" by simp
    from True "1.prems" have lt: "nat i < length (take (nat nr_params) cmd_params)" by simp
    from True "1.prems" have nth: "take (nat nr_params) cmd_params ! nat i = cmd_params ! nat i"
      by simp
    from "1.prems" have suc: "nat (i + 1) = Suc (nat i)" by simp
    have "drop (nat i) (take (nat nr_params) cmd_params)
          = cmd_params ! nat i # drop (nat (i + 1)) (take (nat nr_params) cmd_params)"
      using Cons_nth_drop_Suc[OF lt] nth suc by simp
    moreover have "sgr_loop (i + 1) (sgr_param s (cmd_params ! nat i)) cmd_params nr_params
          = Inr (fold (\<lambda>p t. sgr_param t p)
                  (drop (nat (i + 1)) (take (nat nr_params) cmd_params))
                  (sgr_param s (cmd_params ! nat i)))"
      using "1.IH"[OF True ok] "1.prems" by simp
    ultimately show ?thesis using True ok by (simp add: sgr_loop.simps[of i])
  qed
qed

lemma sgr_param_range:
  assumes "0 \<le> cur_fg_gc_idx s \<and> cur_fg_gc_idx s \<le> 7 \<and> 0 \<le> cur_bg_gc_idx s \<and> cur_bg_gc_idx s \<le> 7"
  shows "0 \<le> cur_fg_gc_idx (sgr_param s p) \<and> cur_fg_gc_idx (sgr_param s p) \<le> 7
         \<and> 0 \<le> cur_bg_gc_idx (sgr_param s p) \<and> cur_bg_gc_idx (sgr_param s p) \<le> 7"
  using assms by (simp add: sgr_param_def Let_def)

lemma sgr_fold_range:
  assumes "0 \<le> cur_fg_gc_idx s \<and> cur_fg_gc_idx s \<le> 7 \<and> 0 \<le> cur_bg_gc_idx s \<and> cur_bg_gc_idx s \<le> 7"
  shows "0 \<le> cur_fg_gc_idx (fold (\<lambda>p t. sgr_param t p) ps s)
         \<and> cur_fg_gc_idx (fold (\<lambda>p t. sgr_param t p) ps s) \<le> 7
         \<and> 0 \<le> cur_bg_gc_idx (fold (\<lambda>p t. sgr_param t p) ps s)
         \<and> cur_bg_gc_idx (fold (\<lambda>p t. sgr_param t p) ps s) \<le> 7"
  using assms
proof (induction ps arbitrary: s)
  case Nil
  then show ?case by simp
next
  case (Cons p ps)
  from Cons.IH[OF sgr_param_range[OF Cons.prems, of p]] show ?case by simp
qed

lemma sgr_param_unrecognized: "p \<notin> sgr_recognized \<Longrightarrow> sgr_param s p = s"
  by (auto simp: sgr_recognized_def sgr_param_def)

text \<open>
  Claim C10. If both rendition indices are in 0..7 before \<open>select_graphic_rendition\<close>, the
  call completes (for a count within the parameter buffer) and both are in 0..7 after it.
  The result is the parameters applied in order, and a parameter outside
  \<open>{0, 7, 30..37, 39, 40..47, 49}\<close> changes neither index.
\<close>

theorem select_graphic_rendition_range:
  assumes "0 \<le> cur_fg_gc_idx s \<and> cur_fg_gc_idx s \<le> 7"
    and "0 \<le> cur_bg_gc_idx s \<and> cur_bg_gc_idx s \<le> 7"
    and "nr_params \<le> int (length cmd_params)"
  shows "\<exists>s'. select_graphic_rendition s cmd_params nr_params = Inr s'
           \<and> s' = fold (\<lambda>p t. sgr_param t p) (take (nat nr_params) cmd_params) s
           \<and> 0 \<le> cur_fg_gc_idx s' \<and> cur_fg_gc_idx s' \<le> 7
           \<and> 0 \<le> cur_bg_gc_idx s' \<and> cur_bg_gc_idx s' \<le> 7
           \<and> (\<forall>t p. p \<notin> sgr_recognized \<longrightarrow>
                 cur_fg_gc_idx (sgr_param t p) = cur_fg_gc_idx t
                 \<and> cur_bg_gc_idx (sgr_param t p) = cur_bg_gc_idx t)"
proof -
  have "select_graphic_rendition s cmd_params nr_params
        = Inr (fold (\<lambda>p t. sgr_param t p) (take (nat nr_params) cmd_params) s)"
    using sgr_loop_fold[of 0 nr_params cmd_params s] assms(3)
    by (simp add: select_graphic_rendition_def)
  moreover from assms(1,2)
  have "0 \<le> cur_fg_gc_idx s \<and> cur_fg_gc_idx s \<le> 7 \<and> 0 \<le> cur_bg_gc_idx s \<and> cur_bg_gc_idx s \<le> 7"
    by simp
  note sgr_fold_range[OF this, of "take (nat nr_params) cmd_params"]
  ultimately show ?thesis by (simp add: sgr_param_unrecognized)
qed

theorem select_graphic_rendition_range_witness:
  "0 \<le> cur_fg_gc_idx (init_vt102_generic_backend 80 24)
   \<and> cur_fg_gc_idx (init_vt102_generic_backend 80 24) \<le> 7
   \<and> 0 \<le> cur_bg_gc_idx (init_vt102_generic_backend 80 24)
   \<and> cur_bg_gc_idx (init_vt102_generic_backend 80 24) \<le> 7
   \<and> (3 :: int) \<le> int (length [31, 44, 7, 38 :: nat])
   \<and> 38 \<notin> sgr_recognized
   \<and> (\<exists>s'. select_graphic_rendition (init_vt102_generic_backend 80 24) [31, 44, 7, 38] 3 = Inr s'
         \<and> cur_fg_gc_idx s' = 4 \<and> cur_bg_gc_idx s' = 1
         \<and> cur_fg_gc_idx (sgr_param s' 38) = 4 \<and> cur_bg_gc_idx (sgr_param s' 38) = 1)"
proof -
  let ?s = "init_vt102_generic_backend 80 24"
  have h: "0 \<le> cur_fg_gc_idx ?s \<and> cur_fg_gc_idx ?s \<le> 7"
    "0 \<le> cur_bg_gc_idx ?s \<and> cur_bg_gc_idx ?s \<le> 7"
    "(3 :: int) \<le> int (length [31, 44, 7, 38 :: nat])"
    by (simp_all add: init_vt102_generic_backend_def Let_def)
  have n: "(38::nat) \<notin> sgr_recognized" by (simp add: sgr_recognized_def)
  from select_graphic_rendition_range[OF h] obtain s' where
    r: "select_graphic_rendition ?s [31, 44, 7, 38] 3 = Inr s'"
    and f: "s' = fold (\<lambda>p t. sgr_param t p) (take (nat 3) [31, 44, 7, 38]) ?s"
    and u: "\<forall>t p. p \<notin> sgr_recognized \<longrightarrow>
                 cur_fg_gc_idx (sgr_param t p) = cur_fg_gc_idx t
                 \<and> cur_bg_gc_idx (sgr_param t p) = cur_bg_gc_idx t"
    by blast
  have t: "take (nat 3) [31, 44, 7, 38 :: nat] = [31, 44, 7]" by (simp add: eval_nat_numeral)
  have v: "cur_fg_gc_idx s' = 4 \<and> cur_bg_gc_idx s' = 1"
    unfolding f t by (simp add: sgr_param_def init_vt102_generic_backend_def Let_def)
  from u n v have "cur_fg_gc_idx (sgr_param s' 38) = 4 \<and> cur_bg_gc_idx (sgr_param s' 38) = 1"
    by simp
  with h n r v show ?thesis by blast
qed

section \<open>Setting the margins\<close>

text \<open>
  Claim C9. \<open>set_top_and_bottom_margins\<close> changes \<open>margin_top\<close> and \<open>margin_bottom\<close>
  only, and for any arguments establishes \<open>0 \<le> margin_top < margin_bottom \<le> con_height - 1\<close>.
  The cursor, the buffers, the rendition and the refresh flags are those of the state before.
  The cursor is not clamped: there is a reachable state in which it is above the new region
  after the call. A later \<open>move_cursor_relative\<close> or \<open>move_cursor_absolute\<close> puts
  \<open>cursor_y\<close> inside the region.
\<close>

theorem set_top_and_bottom_margins_frame:
  assumes "NR_MIN_VT102_SCREEN_ROWS \<le> con_height s"
  shows "0 \<le> margin_top (set_top_and_bottom_margins s t b)
     \<and> margin_top (set_top_and_bottom_margins s t b) < margin_bottom (set_top_and_bottom_margins s t b)
     \<and> margin_bottom (set_top_and_bottom_margins s t b) \<le> con_height s - 1
     \<and> set_top_and_bottom_margins s t b
         = s\<lparr>margin_top := margin_top (set_top_and_bottom_margins s t b),
              margin_bottom := margin_bottom (set_top_and_bottom_margins s t b)\<rparr>
     \<and> cursor_x (set_top_and_bottom_margins s t b) = cursor_x s
     \<and> cursor_y (set_top_and_bottom_margins s t b) = cursor_y s
     \<and> (\<forall>dx dy. margin_top (set_top_and_bottom_margins s t b)
                   \<le> cursor_y (move_cursor_relative (set_top_and_bottom_margins s t b) dx dy)
                \<and> cursor_y (move_cursor_relative (set_top_and_bottom_margins s t b) dx dy)
                   \<le> margin_bottom (set_top_and_bottom_margins s t b))
     \<and> (\<forall>x y. margin_top (set_top_and_bottom_margins s t b)
                   \<le> cursor_y (move_cursor_absolute (set_top_and_bottom_margins s t b) x y)
                \<and> cursor_y (move_cursor_absolute (set_top_and_bottom_margins s t b) x y)
                   \<le> margin_bottom (set_top_and_bottom_margins s t b))
     \<and> (\<exists>s0. reachable s0
           \<and> cursor_y (set_top_and_bottom_margins s0 2 3)
               < margin_top (set_top_and_bottom_margins s0 2 3))"
proof -
  have ex: "\<exists>s0. reachable s0
           \<and> cursor_y (set_top_and_bottom_margins s0 2 3)
               < margin_top (set_top_and_bottom_margins s0 2 3)"
  proof -
    have "cursor_y (set_top_and_bottom_margins (init_vt102_generic_backend 80 24) 2 3)
          < margin_top (set_top_and_bottom_margins (init_vt102_generic_backend 80 24) 2 3)"
      by (simp add: set_top_and_bottom_margins_def init_vt102_generic_backend_def
          Let_def NR_MIN_VT102_SCREEN_COLUMNS_def NR_MIN_VT102_SCREEN_ROWS_def)
    moreover have "size_fits 80 24"
      by (simp add: size_fits_def NR_MIN_VT102_SCREEN_COLUMNS_def NR_MIN_VT102_SCREEN_ROWS_def)
    ultimately show ?thesis using reachable_init_fits[of 80 24] by blast
  qed
  from assms have h: "2 \<le> con_height s" by (simp add: NR_MIN_VT102_SCREEN_ROWS_def)
  then have m: "0 \<le> margin_top (set_top_and_bottom_margins s t b)
     \<and> margin_top (set_top_and_bottom_margins s t b) < margin_bottom (set_top_and_bottom_margins s t b)
     \<and> margin_bottom (set_top_and_bottom_margins s t b) \<le> con_height s - 1"
    by (simp add: set_top_and_bottom_margins_def Let_def)
  have fr: "set_top_and_bottom_margins s t b
         = s\<lparr>margin_top := margin_top (set_top_and_bottom_margins s t b),
              margin_bottom := margin_bottom (set_top_and_bottom_margins s t b)\<rparr>"
    "cursor_x (set_top_and_bottom_margins s t b) = cursor_x s"
    "cursor_y (set_top_and_bottom_margins s t b) = cursor_y s"
    by (simp_all add: set_top_and_bottom_margins_def Let_def)
  have cl: "margin_top u \<le> margin_bottom u \<Longrightarrow>
       margin_top u \<le> cursor_y (move_cursor_relative u dx dy)
       \<and> cursor_y (move_cursor_relative u dx dy) \<le> margin_bottom u
       \<and> margin_top u \<le> cursor_y (move_cursor_absolute u x y)
       \<and> cursor_y (move_cursor_absolute u x y) \<le> margin_bottom u" for u dx dy x y
    by (simp add: move_cursor_relative_def move_cursor_absolute_def Let_def)
  from m have "margin_top (set_top_and_bottom_margins s t b) \<le> margin_bottom (set_top_and_bottom_margins s t b)"
    by simp
  from cl[OF this] m fr ex show ?thesis by blast
qed

theorem set_top_and_bottom_margins_frame_witness:
  "NR_MIN_VT102_SCREEN_ROWS \<le> con_height (init_vt102_generic_backend 80 24)
   \<and> margin_top (set_top_and_bottom_margins (init_vt102_generic_backend 80 24) (- 4) 100) = 0
   \<and> margin_bottom (set_top_and_bottom_margins (init_vt102_generic_backend 80 24) (- 4) 100) = 23
   \<and> set_top_and_bottom_margins (init_vt102_generic_backend 80 24) 9 2
       = (init_vt102_generic_backend 80 24)\<lparr>margin_top := 9, margin_bottom := 10\<rparr>"
proof -
  have h: "NR_MIN_VT102_SCREEN_ROWS \<le> con_height (init_vt102_generic_backend 80 24)"
    by (simp add: init_vt102_generic_backend_def Let_def NR_MIN_VT102_SCREEN_ROWS_def)
  have a: "margin_top (set_top_and_bottom_margins (init_vt102_generic_backend 80 24) 9 2) = 9"
    "margin_bottom (set_top_and_bottom_margins (init_vt102_generic_backend 80 24) 9 2) = 10"
    "margin_top (set_top_and_bottom_margins (init_vt102_generic_backend 80 24) (- 4) 100) = 0"
    "margin_bottom (set_top_and_bottom_margins (init_vt102_generic_backend 80 24) (- 4) 100) = 23"
    by (simp_all add: set_top_and_bottom_margins_def init_vt102_generic_backend_def
          Let_def NR_MIN_VT102_SCREEN_COLUMNS_def NR_MIN_VT102_SCREEN_ROWS_def)
  from set_top_and_bottom_margins_frame[OF h, of 9 2] a h show ?thesis by simp
qed

section \<open>Defects of the source\<close>

text \<open>
  Claim C3 (the code differs). \<open>init_vt102_generic_backend\<close> fills \<open>chbuf\<close> with the letter
  \<open>E\<close> (0x45), not with the space character; the rendition bytes are 0 and every line flag
  is set. The 80 by 24 screen is a reachable state of 1920 cells, and its top left cell holds
  0x45.
\<close>

theorem init_fills_chbuf_with_E:
  "chbuf (init_vt102_generic_backend width height)
     = replicate (nat (int_mul (con_width (init_vt102_generic_backend width height))
                               (con_height (init_vt102_generic_backend width height)))) 0x45
   \<and> grbuf (init_vt102_generic_backend width height)
     = replicate (nat (int_mul (con_width (init_vt102_generic_backend width height))
                               (con_height (init_vt102_generic_backend width height)))) 0
   \<and> must_refresh_line_buf (init_vt102_generic_backend width height)
     = replicate (nat (con_height (init_vt102_generic_backend width height))) True
   \<and> reachable (init_vt102_generic_backend 80 24)
   \<and> chbuf (init_vt102_generic_backend 80 24) = replicate 1920 0x45
   \<and> cell_ch (init_vt102_generic_backend 80 24) 0 0 = 0x45
   \<and> cell_ch (init_vt102_generic_backend 80 24) 0 0 \<noteq> 0x20"
proof -
  have f: "size_fits 80 24"
    by (simp add: size_fits_def NR_MIN_VT102_SCREEN_COLUMNS_def NR_MIN_VT102_SCREEN_ROWS_def)
  have m: "int_mul 80 24 = 1920" by (simp add: int_mul_def)
  have "chbuf (init_vt102_generic_backend 80 24) = replicate 1920 0x45"
    by (simp add: init_vt102_generic_backend_def Let_def m
        NR_MIN_VT102_SCREEN_COLUMNS_def NR_MIN_VT102_SCREEN_ROWS_def)
  moreover from this have "cell_ch (init_vt102_generic_backend 80 24) 0 0 = 0x45"
    by (simp add: cell_ch_def)
  moreover have "chbuf (init_vt102_generic_backend width height)
     = replicate (nat (int_mul (con_width (init_vt102_generic_backend width height))
                               (con_height (init_vt102_generic_backend width height)))) 0x45
   \<and> grbuf (init_vt102_generic_backend width height)
     = replicate (nat (int_mul (con_width (init_vt102_generic_backend width height))
                               (con_height (init_vt102_generic_backend width height)))) 0
   \<and> must_refresh_line_buf (init_vt102_generic_backend width height)
     = replicate (nat (con_height (init_vt102_generic_backend width height))) True"
    by (simp add: init_vt102_generic_backend_def Let_def)
  ultimately show ?thesis using reachable_init_fits[OF f] by simp
qed

text \<open>
  Claim C5 (the code differs). \<open>delete_characters_at_cursor\<close> never changes \<open>grbuf\<close>.
  On a 10 by 2 screen whose first row holds a red \<open>A\<close>, a green \<open>B\<close> and, in the last
  column, a yellow \<open>C\<close>, deleting one character at column 0 moves the characters left
  and puts a space in the last column, but the renditions stay where they were: column 0
  shows \<open>B\<close> with the rendition of \<open>A\<close>, and the new space in column 9 keeps
  rendition 3.
\<close>

theorem delete_characters_keeps_grbuf:
  "(case delete_characters_at_cursor s n of Inl e \<Rightarrow> True | Inr s' \<Rightarrow> grbuf s' = grbuf s)
   \<and> (case run_ops [EraseDisplay, SelectGraphicRendition [31] 1, DisplayChar 0x41,
                 SelectGraphicRendition [32] 1, DisplayChar 0x42, MoveCursorAbsolute 9 0,
                 SelectGraphicRendition [33] 1, DisplayChar 0x43, MoveCursorAbsolute 0 0]
          (init_vt102_generic_backend 10 2) of
     Inl e \<Rightarrow> False
   | Inr t \<Rightarrow>
       (case delete_characters_at_cursor t 1 of
          Inl e \<Rightarrow> False
        | Inr t' \<Rightarrow>
            cell_ch t 0 0 = 0x41 \<and> cell_gr t 0 0 = 1
            \<and> cell_ch t 1 0 = 0x42 \<and> cell_gr t 1 0 = 2
            \<and> cell_ch t 9 0 = 0x43 \<and> cell_gr t 9 0 = 3
            \<and> cell_ch t' 0 0 = 0x42 \<and> cell_gr t' 0 0 = 1
            \<and> cell_ch t' 8 0 = 0x43 \<and> cell_gr t' 8 0 = 0
            \<and> cell_ch t' 9 0 = 0x20 \<and> cell_gr t' 9 0 = 3
            \<and> grbuf t' = grbuf t))"
proof -
  have g: "case delete_characters_at_cursor s n of Inl e \<Rightarrow> True | Inr s' \<Rightarrow> grbuf s' = grbuf s"
    by (auto simp: delete_characters_at_cursor_def Let_def thenE_Inr_iff
        split: sum.splits if_splits)
  have c: "case run_ops [EraseDisplay, SelectGraphicRendition [31] 1, DisplayChar 0x41,
                 SelectGraphicRendition [32] 1, DisplayChar 0x42, MoveCursorAbsolute 9 0,
                 SelectGraphicRendition [33] 1, DisplayChar 0x43, MoveCursorAbsolute 0 0]
          (init_vt102_generic_backend 10 2) of
     Inl e \<Rightarrow> False
   | Inr t \<Rightarrow>
       (case delete_characters_at_cursor t 1 of
          Inl e \<Rightarrow> False
        | Inr t' \<Rightarrow>
            cell_ch t 0 0 = 0x41 \<and> cell_gr t 0 0 = 1
            \<and> cell_ch t 1 0 = 0x42 \<and> cell_gr t 1 0 = 2
            \<and> cell_ch t 9 0 = 0x43 \<and> cell_gr t 9 0 = 3
            \<and> cell_ch t' 0 0 = 0x42 \<and> cell_gr t' 0 0 = 1
            \<and> cell_ch t' 8 0 = 0x43 \<and> cell_gr t' 8 0 = 0
            \<and> cell_ch t' 9 0 = 0x20 \<and> cell_gr t' 9 0 = 3
            \<and> grbuf t' = grbuf t)"
    by code_simp
  from g c show ?thesis by (rule conjI)
qed

text \<open>
  Claim C6 (the code differs). On a fresh 10 by 3 screen the cursor is on \<open>margin_top\<close>;
  \<open>cursor_reverse_index\<close> scrolls the region down and fills the rendition bytes of the
  vacated row 0 with 0x20 (foreground 0, background 2), where \<open>handle_linefeed\<close> at
  \<open>margin_bottom\<close> fills those of its vacated row with 0.
\<close>

theorem reverse_index_fills_grbuf_with_space:
  "(case cursor_reverse_index (init_vt102_generic_backend 10 3) of
      Inl e \<Rightarrow> False
    | Inr t \<Rightarrow> cell_ch t 0 0 = 0x20 \<and> cell_gr t 0 0 = 0x20 \<and> cell_gr t 9 0 = 0x20
               \<and> cell_gr t 0 0 \<noteq> 0 \<and> cell_gr t 0 1 = 0 \<and> line_dirty t 0)
   \<and> (case handle_linefeed (move_cursor_absolute (init_vt102_generic_backend 10 3) 0 2) of
      Inl e \<Rightarrow> False
    | Inr t \<Rightarrow> cell_ch t 0 2 = 0x20 \<and> cell_gr t 0 2 = 0 \<and> cell_gr t 9 2 = 0)"
  by code_simp

section \<open>Erasing\<close>

lemma row_le_iff:
  fixes a x y w :: int
  assumes "0 \<le> x" and "x < w"
  shows "(a * w \<le> y * w + x) = (a \<le> y)"
proof
  assume "a \<le> y"
  with assms have "a * w \<le> y * w" by (intro mult_right_mono) simp_all
  with assms show "a * w \<le> y * w + x" by linarith
next
  assume le: "a * w \<le> y * w + x"
  show "a \<le> y"
  proof (rule ccontr)
    assume "\<not> a \<le> y"
    then have "y + 1 \<le> a" by simp
    with assms have "(y + 1) * w \<le> a * w" by (intro mult_right_mono) simp_all
    with assms le show False by (simp add: algebra_simps)
  qed
qed

lemma row_less_iff:
  fixes b x y w :: int
  assumes "0 \<le> x" and "x < w"
  shows "(y * w + x < b * w) = (y < b)"
  using row_le_iff[OF assms, of b y] by linarith

lemma lex_le_iff:
  fixes x y x' y' w :: int
  assumes "0 \<le> x" "x < w" "0 \<le> x'" "x' < w"
  shows "(y * w + x \<le> y' * w + x') = (y < y' \<or> (y = y' \<and> x \<le> x'))"
proof -
  consider "y < y'" | "y = y'" | "y' < y" by linarith
  then show ?thesis
  proof cases
    case 1
    then have "y + 1 \<le> y'" by simp
    with assms have "(y + 1) * w \<le> y' * w" by (intro mult_right_mono) simp_all
    with assms 1 show ?thesis by (simp add: algebra_simps)
  next
    case 2
    then show ?thesis by simp
  next
    case 3
    then have "y' + 1 \<le> y" by simp
    with assms have "(y' + 1) * w \<le> y * w" by (intro mult_right_mono) simp_all
    with assms 3 show ?thesis by (simp add: algebra_simps)
  qed
qed

text \<open>A block fill of both buffers, read cell by cell.\<close>

lemma memset_cells:
  assumes inv: "screen_inv s"
    and cb: "memset (chbuf s) off 0x20 n = Inr cb" and gb: "memset (grbuf s) off 0 n = Inr gb"
    and s': "chbuf s' = cb" "grbuf s' = gb" "con_width s' = con_width s"
    and R: "\<And>x y. 0 \<le> x \<Longrightarrow> x < con_width s \<Longrightarrow> 0 \<le> y \<Longrightarrow> y < con_height s \<Longrightarrow>
               (off \<le> y * con_width s + x \<and> y * con_width s + x < off + n) = R x y"
    and xy: "0 \<le> x" "x < con_width s" "0 \<le> y" "y < con_height s"
  shows "cell_ch s' x y = (if R x y then 0x20 else cell_ch s x y)
         \<and> cell_gr s' x y = (if R x y then 0 else cell_gr s x y)"
proof -
  let ?j = "y * con_width s + x"
  from inv have len: "int (length (chbuf s)) = con_width s * con_height s"
      "int (length (grbuf s)) = con_width s * con_height s"
    by (simp_all add: screen_inv_def)
  from cell_index_bound[OF xy] len have j: "0 \<le> ?j" "?j < int (length (chbuf s))"
      "?j < int (length (grbuf s))" by simp_all
  from memset_nth[OF cb j(1,2)] memset_nth[OF gb j(1,3)] R[OF xy] s'
  show ?thesis by (simp add: cell_ch_def cell_gr_def)
qed

lemma erases_cong:
  assumes "erases s R r"
    and "\<And>x y. 0 \<le> x \<Longrightarrow> x < con_width s \<Longrightarrow> 0 \<le> y \<Longrightarrow> y < con_height s \<Longrightarrow> R x y = R' x y"
  shows "erases s R' r"
  using assms unfolding erases_def by (metis (full_types))

lemma erases_memset:
  assumes inv: "screen_inv s"
    and bnd: "0 \<le> off" "0 \<le> n" "off + n \<le> con_width s * con_height s"
    and R: "\<And>x y. 0 \<le> x \<Longrightarrow> x < con_width s \<Longrightarrow> 0 \<le> y \<Longrightarrow> y < con_height s \<Longrightarrow>
               (off \<le> y * con_width s + x \<and> y * con_width s + x < off + n) = R x y"
    and f: "\<And>cb gb. memset (chbuf s) off 0x20 n = Inr cb \<Longrightarrow> memset (grbuf s) off 0 n = Inr gb
               \<Longrightarrow> \<exists>s'. r = Inr s' \<and> chbuf s' = cb \<and> grbuf s' = gb \<and> same_shape s s'"
  shows "erases s R r"
proof -
  from inv have len: "int (length (chbuf s)) = con_width s * con_height s"
      "int (length (grbuf s)) = con_width s * con_height s"
    by (simp_all add: screen_inv_def)
  from bnd len obtain cb where cb: "memset (chbuf s) off 0x20 n = Inr cb"
    using memset_ok[of off n "chbuf s" "0x20"] by auto
  from bnd len obtain gb where gb: "memset (grbuf s) off 0 n = Inr gb"
    using memset_ok[of off n "grbuf s" 0] by auto
  from f[OF cb gb] obtain s' where s': "r = Inr s'" "chbuf s' = cb" "grbuf s' = gb"
    and sh: "same_shape s s'" by blast
  from sh have w: "con_width s' = con_width s" by (simp add: same_shape_def)
  have "cell_ch s' x y = (if R x y then 0x20 else cell_ch s x y)
         \<and> cell_gr s' x y = (if R x y then 0 else cell_gr s x y)"
    if "0 \<le> x" "x < con_width s" "0 \<le> y" "y < con_height s" for x y
    using memset_cells[OF inv cb gb s'(2,3) w R that] by simp
  with s'(1) sh show ?thesis unfolding erases_def by blast
qed

lemma erases_trans:
  assumes "erases s R1 (Inr s1)" and "erases s1 R2 r"
  shows "erases s (\<lambda>x y. R1 x y \<or> R2 x y) r"
proof -
  from assms(1) have sh1: "same_shape s s1"
    and c1: "\<And>x y. 0 \<le> x \<Longrightarrow> x < con_width s \<Longrightarrow> 0 \<le> y \<Longrightarrow> y < con_height s \<Longrightarrow>
               cell_ch s1 x y = (if R1 x y then 0x20 else cell_ch s x y)
               \<and> cell_gr s1 x y = (if R1 x y then 0 else cell_gr s x y)"
    unfolding erases_def by auto
  from assms(2) obtain s' where r: "r = Inr s'" and sh2: "same_shape s1 s'"
    and c2: "\<And>x y. 0 \<le> x \<Longrightarrow> x < con_width s1 \<Longrightarrow> 0 \<le> y \<Longrightarrow> y < con_height s1 \<Longrightarrow>
               cell_ch s' x y = (if R2 x y then 0x20 else cell_ch s1 x y)
               \<and> cell_gr s' x y = (if R2 x y then 0 else cell_gr s1 x y)"
    unfolding erases_def by auto
  from sh1 have g: "con_width s1 = con_width s" "con_height s1 = con_height s"
    by (simp_all add: same_shape_def)
  have "cell_ch s' x y = (if R1 x y \<or> R2 x y then 0x20 else cell_ch s x y)
         \<and> cell_gr s' x y = (if R1 x y \<or> R2 x y then 0 else cell_gr s x y)"
    if "0 \<le> x" "x < con_width s" "0 \<le> y" "y < con_height s" for x y
    using c1[OF that] c2[of x y] that g by simp
  with r same_shape_trans[OF sh1 sh2] show ?thesis unfolding erases_def by blast
qed

lemma erases_must_refresh:
  assumes "erases s R r"
  shows "erases s R (thenE r (\<lambda>t. Inr (t\<lparr>must_refresh := True\<rparr>)))"
  using assms unfolding erases_def
  by (auto simp: same_shape_def cell_ch_def cell_gr_def)

lemma erase_line_at_cursor_erases:
  assumes inv: "screen_inv s"
  shows "erases s (\<lambda>x y. y = cursor_y s) (erase_line_at_cursor s)"
proof (rule erases_memset[OF inv, of "cursor_y s * con_width s" "con_width s"])
  let ?w = "con_width s" and ?cy = "cursor_y s"
  from inv have c: "0 \<le> ?cy" "?cy + 1 \<le> con_height s" "0 < ?w"
      "int (length (must_refresh_line_buf s)) = con_height s"
    by (simp_all add: screen_inv_def NR_MIN_VT102_SCREEN_COLUMNS_def)
  from c show "0 \<le> ?cy * ?w" "0 \<le> ?w" by simp_all
  from c have "(?cy + 1) * ?w \<le> ?w * con_height s" by (intro row_offset_bound) simp_all
  then show "?cy * ?w + ?w \<le> ?w * con_height s" by (simp add: algebra_simps)
  show "(?cy * ?w \<le> y * ?w + x \<and> y * ?w + x < ?cy * ?w + ?w) = (y = ?cy)"
    if "0 \<le> x" "x < ?w" for x y
  proof -
    have "?cy * ?w + ?w = (?cy + 1) * ?w" by (simp add: algebra_simps)
    then show ?thesis
      using row_le_iff[OF that, of ?cy y] row_less_iff[OF that, of y "?cy + 1"] by auto
  qed
  fix cb gb
  assume m: "memset (chbuf s) (?cy * ?w) 0x20 ?w = Inr cb" "memset (grbuf s) (?cy * ?w) 0 ?w = Inr gb"
  from c obtain lb where lb: "store (must_refresh_line_buf s) ?cy True = Inr lb"
    using store_ok[of ?cy "must_refresh_line_buf s"] by auto
  from m lb memset_length[OF m(1)] memset_length[OF m(2)] store_length[OF lb]
  show "\<exists>s'. erase_line_at_cursor s = Inr s' \<and> chbuf s' = cb \<and> grbuf s' = gb \<and> same_shape s s'"
    by (simp add: erase_line_at_cursor_def same_shape_def)
qed

lemma erase_line_from_beginning_to_cursor_erases:
  assumes inv: "screen_inv s"
  shows "erases s (\<lambda>x y. y = cursor_y s \<and> x \<le> cursor_x s) (erase_line_from_beginning_to_cursor s)"
proof (rule erases_memset[OF inv, of "cursor_y s * con_width s" "cursor_x s + 1"])
  let ?w = "con_width s" and ?cy = "cursor_y s" and ?cx = "cursor_x s"
  from inv have c: "0 \<le> ?cy" "?cy < con_height s" "0 \<le> ?cx" "?cx < ?w"
      "int (length (must_refresh_line_buf s)) = con_height s"
    by (simp_all add: screen_inv_def)
  from c show "0 \<le> ?cy * ?w" "0 \<le> ?cx + 1" by simp_all
  from cell_index_bound[OF c(3,4,1,2)] show "?cy * ?w + (?cx + 1) \<le> ?w * con_height s" by simp
  show "(?cy * ?w \<le> y * ?w + x \<and> y * ?w + x < ?cy * ?w + (?cx + 1))
        = (y = ?cy \<and> x \<le> ?cx)"
    if "0 \<le> x" "x < ?w" for x y
  proof -
    have "(y * ?w + x < ?cy * ?w + (?cx + 1)) = (y * ?w + x \<le> ?cy * ?w + ?cx)" by linarith
    then show ?thesis
      using row_le_iff[OF that, of ?cy y] lex_le_iff[OF that c(3,4), of y ?cy] by auto
  qed
  fix cb gb
  assume m: "memset (chbuf s) (?cy * ?w) 0x20 (?cx + 1) = Inr cb"
    "memset (grbuf s) (?cy * ?w) 0 (?cx + 1) = Inr gb"
  from c obtain lb where lb: "store (must_refresh_line_buf s) ?cy True = Inr lb"
    using store_ok[of ?cy "must_refresh_line_buf s"] by auto
  from m lb memset_length[OF m(1)] memset_length[OF m(2)] store_length[OF lb]
  show "\<exists>s'. erase_line_from_beginning_to_cursor s = Inr s' \<and> chbuf s' = cb \<and> grbuf s' = gb
          \<and> same_shape s s'"
    by (simp add: erase_line_from_beginning_to_cursor_def same_shape_def)
qed

lemma erase_line_from_cursor_to_end_erases:
  assumes inv: "screen_inv s"
  shows "erases s (\<lambda>x y. y = cursor_y s \<and> cursor_x s \<le> x) (erase_line_from_cursor_to_end s)"
proof (rule erases_memset[OF inv, of "cursor_y s * con_width s + cursor_x s"
        "con_width s - cursor_x s"])
  let ?w = "con_width s" and ?cy = "cursor_y s" and ?cx = "cursor_x s"
  from inv have c: "0 \<le> ?cy" "?cy < con_height s" "0 \<le> ?cx" "?cx < ?w"
      "int (length (must_refresh_line_buf s)) = con_height s"
    by (simp_all add: screen_inv_def)
  from c show "0 \<le> ?cy * ?w + ?cx" "0 \<le> ?w - ?cx" by simp_all
  from c have "(?cy + 1) * ?w \<le> ?w * con_height s" by (intro row_offset_bound) simp_all
  then show "?cy * ?w + ?cx + (?w - ?cx) \<le> ?w * con_height s" by (simp add: algebra_simps)
  show "(?cy * ?w + ?cx \<le> y * ?w + x \<and> y * ?w + x < ?cy * ?w + ?cx + (?w - ?cx))
        = (y = ?cy \<and> ?cx \<le> x)"
    if "0 \<le> x" "x < ?w" for x y
  proof -
    have "?cy * ?w + ?cx + (?w - ?cx) = (?cy + 1) * ?w" by (simp add: algebra_simps)
    then show ?thesis
      using row_less_iff[OF that, of y "?cy + 1"] lex_le_iff[OF c(3,4) that, of ?cy y] by auto
  qed
  fix cb gb
  assume m: "memset (chbuf s) (?cy * ?w + ?cx) 0x20 (?w - ?cx) = Inr cb"
    "memset (grbuf s) (?cy * ?w + ?cx) 0 (?w - ?cx) = Inr gb"
  from c obtain lb where lb: "store (must_refresh_line_buf s) ?cy True = Inr lb"
    using store_ok[of ?cy "must_refresh_line_buf s"] by auto
  from m lb memset_length[OF m(1)] memset_length[OF m(2)] store_length[OF lb]
  show "\<exists>s'. erase_line_from_cursor_to_end s = Inr s' \<and> chbuf s' = cb \<and> grbuf s' = gb
          \<and> same_shape s s'"
    by (simp add: erase_line_from_cursor_to_end_def same_shape_def)
qed

lemma erase_display_erases:
  assumes inv: "screen_inv s"
  shows "erases s (\<lambda>x y. True) (erase_display s)"
proof (rule erases_memset[OF inv, of 0 "con_height s * con_width s"])
  let ?w = "con_width s" and ?h = "con_height s"
  from inv have c: "0 < ?h" "0 < ?w" "int (length (must_refresh_line_buf s)) = ?h"
    by (simp_all add: screen_inv_def NR_MIN_VT102_SCREEN_COLUMNS_def NR_MIN_VT102_SCREEN_ROWS_def)
  show "(0::int) \<le> 0" by simp
  from c show "0 \<le> ?h * ?w" by simp
  show "0 + ?h * ?w \<le> ?w * ?h" by (simp add: mult.commute)
  show "(0 \<le> y * ?w + x \<and> y * ?w + x < 0 + ?h * ?w) = True"
    if "0 \<le> x" "x < ?w" "0 \<le> y" "y < ?h" for x y
    using cell_index_bound[OF that] by (simp add: mult.commute)
  fix cb gb
  assume m: "memset (chbuf s) 0 0x20 (?h * ?w) = Inr cb" "memset (grbuf s) 0 0 (?h * ?w) = Inr gb"
  from c obtain lb where lb: "memset (must_refresh_line_buf s) 0 True ?h = Inr lb"
    using memset_ok[of 0 ?h "must_refresh_line_buf s"] by auto
  from m lb memset_length[OF m(1)] memset_length[OF m(2)] memset_length[OF lb]
  show "\<exists>s'. erase_display s = Inr s' \<and> chbuf s' = cb \<and> grbuf s' = gb \<and> same_shape s s'"
    by (simp add: erase_display_def same_shape_def)
qed

lemma erase_display_from_beginning_to_cursor_erases:
  assumes inv: "screen_inv s"
  shows "erases s (\<lambda>x y. y < cursor_y s \<or> (y = cursor_y s \<and> x \<le> cursor_x s))
           (erase_display_from_beginning_to_cursor s)"
proof -
  let ?w = "con_width s" and ?h = "con_height s" and ?cy = "cursor_y s" and ?cx = "cursor_x s"
  let ?n = "?cy * ?w + ?cx + 1"
  from inv have c: "0 \<le> ?cy" "?cy < ?h" "0 \<le> ?cx" "?cx < ?w"
      "int (length (must_refresh_line_buf s)) = ?h"
      "int (length (chbuf s)) = ?w * ?h" "int (length (grbuf s)) = ?w * ?h"
    by (simp_all add: screen_inv_def)
  note idx = cell_index_bound[OF c(3,4,1,2)]
  from idx c obtain cb where cb: "memset (chbuf s) 0 0x20 ?n = Inr cb"
    using memset_ok[of 0 ?n "chbuf s" "0x20"] by auto
  from idx c obtain gb where gb: "memset (grbuf s) 0 0 ?n = Inr gb"
    using memset_ok[of 0 ?n "grbuf s" 0] by auto
  from c obtain lb where lb: "memset (must_refresh_line_buf s) 0 True (?cy + 1) = Inr lb"
    using memset_ok[of 0 "?cy + 1" "must_refresh_line_buf s"] by auto
  let ?s1 = "s\<lparr>chbuf := cb, grbuf := gb, must_refresh_line_buf := lb\<rparr>"
  have sh: "same_shape s ?s1"
    using memset_length[OF cb] memset_length[OF gb] memset_length[OF lb]
    by (simp add: same_shape_def)
  have e1: "erases s (\<lambda>x y. y < ?cy \<or> (y = ?cy \<and> x \<le> ?cx)) (Inr ?s1)"
  proof (rule erases_memset[OF inv, of 0 ?n])
    show "(0::int) \<le> 0" by simp
    from idx show "0 \<le> ?n" "0 + ?n \<le> ?w * ?h" by simp_all
    show "(0 \<le> y * ?w + x \<and> y * ?w + x < 0 + ?n) = (y < ?cy \<or> (y = ?cy \<and> x \<le> ?cx))"
      if "0 \<le> x" "x < ?w" "0 \<le> y" "y < ?h" for x y
    proof -
      have "(y * ?w + x < 0 + ?n) = (y * ?w + x \<le> ?cy * ?w + ?cx)" by linarith
      then show ?thesis
        using cell_index_bound(1)[OF that] lex_le_iff[OF that(1,2) c(3,4), of y ?cy] by simp
    qed
    fix cb' gb'
    assume "memset (chbuf s) 0 0x20 ?n = Inr cb'" "memset (grbuf s) 0 0 ?n = Inr gb'"
    with cb gb sh
    show "\<exists>s'. Inr ?s1 = Inr s' \<and> chbuf s' = cb' \<and> grbuf s' = gb' \<and> same_shape s s'"
      by simp
  qed
  from same_shape_inv[OF inv sh] have "screen_inv ?s1" .
  from erase_line_from_beginning_to_cursor_erases[OF this]
  have e2: "erases ?s1 (\<lambda>x y. y = ?cy \<and> x \<le> ?cx) (erase_line_from_beginning_to_cursor ?s1)"
    by simp
  have r: "erase_display_from_beginning_to_cursor s
           = thenE (erase_line_from_beginning_to_cursor ?s1) (\<lambda>t. Inr (t\<lparr>must_refresh := True\<rparr>))"
    using cb gb lb by (simp add: erase_display_from_beginning_to_cursor_def)
  from erases_must_refresh[OF erases_trans[OF e1 e2]] show ?thesis
    unfolding r by (rule erases_cong) auto
qed

lemma erase_display_from_cursor_to_end_erases:
  assumes inv: "screen_inv s"
  shows "erases s (\<lambda>x y. cursor_y s < y \<or> (y = cursor_y s \<and> cursor_x s \<le> x))
           (erase_display_from_cursor_to_end s)"
proof -
  let ?w = "con_width s" and ?h = "con_height s" and ?cy = "cursor_y s" and ?cx = "cursor_x s"
  let ?off = "?cy * ?w + ?cx"
  let ?n = "?w * ?h - ?off"
  from inv have c: "0 \<le> ?cy" "?cy < ?h" "0 \<le> ?cx" "?cx < ?w"
      "int (length (must_refresh_line_buf s)) = ?h"
      "int (length (chbuf s)) = ?w * ?h" "int (length (grbuf s)) = ?w * ?h"
    by (simp_all add: screen_inv_def)
  note idx = cell_index_bound[OF c(3,4,1,2)]
  from idx c obtain cb where cb: "memset (chbuf s) ?off 0x20 ?n = Inr cb"
    using memset_ok[of ?off ?n "chbuf s" "0x20"] by auto
  from idx c obtain gb where gb: "memset (grbuf s) ?off 0 ?n = Inr gb"
    using memset_ok[of ?off ?n "grbuf s" 0] by auto
  from c obtain lb where lb: "memset (must_refresh_line_buf s) ?cy True (?h - ?cy) = Inr lb"
    using memset_ok[of ?cy "?h - ?cy" "must_refresh_line_buf s"] by auto
  let ?s1 = "s\<lparr>chbuf := cb, grbuf := gb, must_refresh_line_buf := lb\<rparr>"
  have sh: "same_shape s ?s1"
    using memset_length[OF cb] memset_length[OF gb] memset_length[OF lb]
    by (simp add: same_shape_def)
  have e1: "erases s (\<lambda>x y. ?cy < y \<or> (y = ?cy \<and> ?cx \<le> x)) (Inr ?s1)"
  proof (rule erases_memset[OF inv, of ?off ?n])
    from idx show "0 \<le> ?off" "0 \<le> ?n" "?off + ?n \<le> ?w * ?h" by simp_all
    show "(?off \<le> y * ?w + x \<and> y * ?w + x < ?off + ?n) = (?cy < y \<or> (y = ?cy \<and> ?cx \<le> x))"
      if "0 \<le> x" "x < ?w" "0 \<le> y" "y < ?h" for x y
      using cell_index_bound(2)[OF that] lex_le_iff[OF c(3,4) that(1,2), of ?cy y] by auto
    fix cb' gb'
    assume "memset (chbuf s) ?off 0x20 ?n = Inr cb'" "memset (grbuf s) ?off 0 ?n = Inr gb'"
    with cb gb sh
    show "\<exists>s'. Inr ?s1 = Inr s' \<and> chbuf s' = cb' \<and> grbuf s' = gb' \<and> same_shape s s'"
      by simp
  qed
  from same_shape_inv[OF inv sh] have "screen_inv ?s1" .
  from erase_line_from_cursor_to_end_erases[OF this]
  have e2: "erases ?s1 (\<lambda>x y. y = ?cy \<and> ?cx \<le> x) (erase_line_from_cursor_to_end ?s1)"
    by simp
  have r: "erase_display_from_cursor_to_end s
           = thenE (erase_line_from_cursor_to_end ?s1) (\<lambda>t. Inr (t\<lparr>must_refresh := True\<rparr>))"
    using cb gb lb by (simp add: erase_display_from_cursor_to_end_def)
  from erases_must_refresh[OF erases_trans[OF e1 e2]] show ?thesis
    unfolding r by (rule erases_cong) auto
qed

text \<open>
  Claim C7. In a state that satisfies the screen invariant (every state reached through
  screen sizes whose product fits an \<open>int\<close> does), each
  of the six erase operations completes, sets every cell of its range to a space with
  rendition 0, and leaves the other cells, the cursor, the margins and the current
  rendition as they were. The ranges: the cursor row; the cursor row up to the cursor
  column; the cursor row from the cursor column; the whole screen; every cell up to the
  cursor in reading order; every cell from the cursor in reading order.
\<close>

theorem erase_operations_frame:
  assumes "screen_inv s"
  shows "erases s (\<lambda>x y. y = cursor_y s) (erase_line_at_cursor s)
     \<and> erases s (\<lambda>x y. y = cursor_y s \<and> x \<le> cursor_x s) (erase_line_from_beginning_to_cursor s)
     \<and> erases s (\<lambda>x y. y = cursor_y s \<and> cursor_x s \<le> x) (erase_line_from_cursor_to_end s)
     \<and> erases s (\<lambda>x y. True) (erase_display s)
     \<and> erases s (\<lambda>x y. y < cursor_y s \<or> (y = cursor_y s \<and> x \<le> cursor_x s))
         (erase_display_from_beginning_to_cursor s)
     \<and> erases s (\<lambda>x y. cursor_y s < y \<or> (y = cursor_y s \<and> cursor_x s \<le> x))
         (erase_display_from_cursor_to_end s)"
  using assms erase_line_at_cursor_erases erase_line_from_beginning_to_cursor_erases
    erase_line_from_cursor_to_end_erases erase_display_erases
    erase_display_from_beginning_to_cursor_erases erase_display_from_cursor_to_end_erases
  by blast

theorem erase_operations_frame_witness:
  "case run_ops [DisplayChar 0x41, DisplayChar 0x42, DisplayChar 0x43, MoveCursorAbsolute 1 0]
          (init_vt102_generic_backend 10 2) of
     Inl e \<Rightarrow> False
   | Inr t \<Rightarrow> screen_inv t \<and>
       (case erase_line_from_cursor_to_end t of
          Inl e \<Rightarrow> False
        | Inr t' \<Rightarrow> cell_ch t' 0 0 = 0x41 \<and> cell_ch t' 1 0 = 0x20 \<and> cell_gr t' 1 0 = 0
                   \<and> cell_ch t' 0 1 = cell_ch t 0 1 \<and> cursor_x t' = 1 \<and> cursor_y t' = 0)"
proof -
  let ?r = "run_ops [DisplayChar 0x41, DisplayChar 0x42, DisplayChar 0x43, MoveCursorAbsolute 1 0]
          (init_vt102_generic_backend 10 2)"
  have v: "case ?r of Inl e \<Rightarrow> False
           | Inr t \<Rightarrow> cursor_x t = 1 \<and> cursor_y t = 0 \<and> con_width t = 10 \<and> con_height t = 2
                      \<and> cell_ch t 0 0 = 0x41"
    by code_simp
  then obtain t where r: "?r = Inr t" by (cases ?r) auto
  with v have t: "cursor_x t = 1" "cursor_y t = 0" "con_width t = 10" "con_height t = 2"
    "cell_ch t 0 0 = 0x41" by simp_all
  have f: "size_fits 10 2"
    by (simp add: size_fits_def NR_MIN_VT102_SCREEN_COLUMNS_def NR_MIN_VT102_SCREEN_ROWS_def)
  have inv: "screen_inv t" by (rule run_ops_screen_inv[OF init_inv[OF f] _ r]) simp
  from erase_operations_frame[OF inv]
  have "erases t (\<lambda>x y. y = cursor_y t \<and> cursor_x t \<le> x) (erase_line_from_cursor_to_end t)"
    by blast
  then obtain t' where r': "erase_line_from_cursor_to_end t = Inr t'" and sh: "same_shape t t'"
    and c: "\<And>x y. 0 \<le> x \<and> x < con_width t \<and> 0 \<le> y \<and> y < con_height t \<Longrightarrow>
               cell_ch t' x y = (if y = cursor_y t \<and> cursor_x t \<le> x then 0x20 else cell_ch t x y)
               \<and> cell_gr t' x y = (if y = cursor_y t \<and> cursor_x t \<le> x then 0 else cell_gr t x y)"
    unfolding erases_def by auto
  from c[of 0 0] c[of 1 0] c[of 0 1] t sh inv show ?thesis
    unfolding r by (simp add: r' same_shape_def)
qed

section \<open>Resizing\<close>


lemma row_block_bound:
  fixes i w w' h' :: int
  assumes "0 \<le> i" "i < h'" "0 \<le> w" "w \<le> w'"
  shows "0 \<le> i * w'" and "i * w' + w \<le> w' * h'"
proof -
  from assms show "0 \<le> i * w'" by simp
  from assms have "(i + 1) * w' \<le> w' * h'" by (intro row_offset_bound) simp_all
  with assms show "i * w' + w \<le> w' * h'" by (simp add: algebra_simps)
qed

lemma row_block_iff:
  fixes i x y w w' :: int
  assumes "0 \<le> x" "x < w'" "w \<le> w'"
  shows "(i * w' \<le> y * w' + x \<and> y * w' + x < i * w' + w) = (y = i \<and> x < w)"
proof (cases "y = i")
  case True
  with assms show ?thesis by simp
next
  case False
  show ?thesis
  proof (cases "i \<le> y")
    case True
    with False have "i + 1 \<le> y" by simp
    with row_le_iff[OF assms(1,2), of "i + 1" y] have "(i + 1) * w' \<le> y * w' + x" by simp
    with assms False show ?thesis by (simp add: algebra_simps)
  next
    case n: False
    with row_le_iff[OF assms(1,2), of i y] False show ?thesis by simp
  qed
qed




section \<open>Reverse index\<close>

lemma memmove_rows:
  fixes w h a b n :: int
  assumes len: "int (length buf) = w * h"
    and b: "0 \<le> a" "0 \<le> b" "0 \<le> n" "a + n \<le> h" "b + n \<le> h" "0 < w"
  shows "\<exists>m. memmove buf (a * w) (b * w) (n * w) = Inr m \<and> length m = length buf
           \<and> (\<forall>x y. 0 \<le> x \<and> x < w \<and> 0 \<le> y \<and> y < h \<longrightarrow>
                 m ! nat (y * w + x)
                   = (if a \<le> y \<and> y < a + n then buf ! nat ((y - a + b) * w + x)
                      else buf ! nat (y * w + x)))"
proof -
  from b have nn: "0 \<le> a * w" "0 \<le> b * w" "0 \<le> n * w" by simp_all
  from b have "(a + n) * w \<le> w * h" "(b + n) * w \<le> w * h"
    by (intro row_offset_bound; simp)+
  then have up: "a * w + n * w \<le> int (length buf)" "b * w + n * w \<le> int (length buf)"
    by (simp_all add: len algebra_simps)
  from nn up obtain m where m: "memmove buf (a * w) (b * w) (n * w) = Inr m"
    using memmove_ok[of "a * w" "b * w" "n * w" buf] by auto
  have "m ! nat (y * w + x)
          = (if a \<le> y \<and> y < a + n then buf ! nat ((y - a + b) * w + x)
             else buf ! nat (y * w + x))"
    if xy: "0 \<le> x \<and> x < w \<and> 0 \<le> y \<and> y < h" for x y
  proof -
    from xy have x: "0 \<le> x" "x < w" and y: "0 \<le> y" "y < h" by simp_all
    from cell_index_bound[OF x y] len have j: "0 \<le> y * w + x" "y * w + x < int (length buf)"
      by simp_all
    have e: "a * w + n * w = (a + n) * w" by (simp add: algebra_simps)
    have c: "(a * w \<le> y * w + x \<and> y * w + x < a * w + n * w) = (a \<le> y \<and> y < a + n)"
      unfolding e using row_le_iff[OF x, of a y] row_less_iff[OF x, of y "a + n"] by simp
    have i: "b * w + (y * w + x - a * w) = (y - a + b) * w + x" by (simp add: algebra_simps)
    from memmove_nth[OF m j] show ?thesis unfolding c i .
  qed
  with m memmove_length[OF m] show ?thesis by blast
qed

lemma memset_row:
  fixes w h a :: int
  assumes len: "int (length buf) = w * h" and b: "0 \<le> a" "a < h" "0 < w"
  shows "\<exists>m. memset buf (a * w) c w = Inr m \<and> length m = length buf
           \<and> (\<forall>x y. 0 \<le> x \<and> x < w \<and> 0 \<le> y \<and> y < h \<longrightarrow>
                 m ! nat (y * w + x) = (if y = a then c else buf ! nat (y * w + x)))"
proof -
  from b have w0: "0 \<le> w" by simp
  from row_block_bound[OF b(1,2) w0, of w] len have bd: "0 \<le> a * w" "a * w + w \<le> int (length buf)"
    by simp_all
  from bd w0 obtain m where m: "memset buf (a * w) c w = Inr m"
    using memset_ok[of "a * w" w buf c] by auto
  have "m ! nat (y * w + x) = (if y = a then c else buf ! nat (y * w + x))"
    if xy: "0 \<le> x \<and> x < w \<and> 0 \<le> y \<and> y < h" for x y
  proof -
    from xy have x: "0 \<le> x" "x < w" and y: "0 \<le> y" "y < h" by simp_all
    from cell_index_bound[OF x y] len have j: "0 \<le> y * w + x" "y * w + x < int (length buf)"
      by simp_all
    have c: "(a * w \<le> y * w + x \<and> y * w + x < a * w + w) = (y = a)"
      using row_block_iff[OF x, of w a y] x by simp
    from memset_nth[OF m j] show ?thesis unfolding c .
  qed
  with m memset_length[OF m] show ?thesis by blast
qed

lemma int_add_exact:
  "- 2147483648 \<le> a + b \<Longrightarrow> a + b < 2147483648 \<Longrightarrow> int_add a b = a + b"
proof -
  assume "- 2147483648 \<le> a + b" "a + b < 2147483648"
  then have "(a + b + 2147483648) mod 4294967296 = a + b + 2147483648"
    by (intro mod_pos_pos_trivial) simp_all
  then show ?thesis by (simp add: int_add_def)
qed

lemma move_cursor_relative_frame:
  "chbuf (move_cursor_relative s dx dy) = chbuf s"
  "grbuf (move_cursor_relative s dx dy) = grbuf s"
  "con_width (move_cursor_relative s dx dy) = con_width s"
  "con_height (move_cursor_relative s dx dy) = con_height s"
  "margin_top (move_cursor_relative s dx dy) = margin_top s"
  "margin_bottom (move_cursor_relative s dx dy) = margin_bottom s"
  "must_refresh_line_buf (move_cursor_relative s dx dy) = must_refresh_line_buf s"
  by (simp_all add: move_cursor_relative_def Let_def)

lemma move_cursor_relative_y:
  "margin_top s \<le> margin_bottom s \<Longrightarrow>
   cursor_y (move_cursor_relative s dx dy)
     = max (margin_top s) (min (margin_bottom s) (int_add (cursor_y s) dy))"
  by (simp add: move_cursor_relative_def Let_def)

text \<open>
  Claim C4, as amended. In a state that satisfies the screen invariant (with a height that
  fits a C \<open>int\<close>), \<open>cursor_reverse_index\<close> completes. On \<open>margin_top\<close> it scrolls
  the region down by one row: the rows \<open>margin_top .. margin_bottom - 1\<close> move one row
  down, characters and renditions, the row \<open>margin_top\<close> gets space characters, the rows
  outside the region stay, and \<open>cursor_y\<close> stays. Elsewhere the buffers stay and
  \<open>cursor_y\<close> becomes \<open>cursor_y - 1\<close> clamped into the scrolling region, which is
  \<open>cursor_y - 1\<close> whenever \<open>margin_top < cursor_y \<le> margin_bottom + 1\<close>. Nothing is
  said about \<open>cursor_x\<close> and about the renditions of the vacated row.
\<close>

theorem cursor_reverse_index_rows:
  assumes inv: "screen_inv s" and hmax: "con_height s \<le> 2147483647"
  shows "\<exists>s'. cursor_reverse_index s = Inr s'
     \<and> margin_top s' = margin_top s \<and> margin_bottom s' = margin_bottom s
     \<and> con_width s' = con_width s \<and> con_height s' = con_height s
     \<and> (cursor_y s = margin_top s \<longrightarrow>
          cursor_y s' = cursor_y s
          \<and> (\<forall>x y. 0 \<le> x \<and> x < con_width s \<and> 0 \<le> y \<and> y < con_height s \<longrightarrow>
                cell_ch s' x y
                  = (if y = margin_top s then 0x20
                     else if margin_top s < y \<and> y \<le> margin_bottom s then cell_ch s x (y - 1)
                     else cell_ch s x y)
                \<and> (y \<noteq> margin_top s \<longrightarrow>
                     cell_gr s' x y
                       = (if margin_top s < y \<and> y \<le> margin_bottom s then cell_gr s x (y - 1)
                          else cell_gr s x y))))
     \<and> (cursor_y s \<noteq> margin_top s \<longrightarrow>
          chbuf s' = chbuf s \<and> grbuf s' = grbuf s
          \<and> cursor_y s' = max (margin_top s) (min (margin_bottom s) (cursor_y s - 1)))
     \<and> (margin_top s < cursor_y s \<and> cursor_y s \<le> margin_bottom s + 1 \<longrightarrow>
          cursor_y s' = cursor_y s - 1)"
proof -
  let ?w = "con_width s" and ?h = "con_height s"
  let ?mt = "margin_top s" and ?mb = "margin_bottom s" and ?cy = "cursor_y s"
  from inv have c: "0 < ?w" "0 \<le> ?mt" "?mt < ?mb" "?mb < ?h" "0 \<le> ?cy" "?cy < ?h"
      "int (length (chbuf s)) = ?w * ?h" "int (length (grbuf s)) = ?w * ?h"
      "int (length (must_refresh_line_buf s)) = ?h"
    by (simp_all add: screen_inv_def NR_MIN_VT102_SCREEN_COLUMNS_def)
  from c hmax have ia: "int_add ?cy (- 1) = ?cy - 1"
    using int_add_exact[of ?cy "- 1"] by simp
  show ?thesis
  proof (cases "?cy = ?mt")
    case False
    let ?s' = "(move_cursor_relative s (cursor_x s) (- 1))\<lparr>must_refresh := True\<rparr>"
    from False have r: "cursor_reverse_index s = Inr ?s'"
      by (simp add: cursor_reverse_index_def)
    from c have y: "cursor_y ?s' = max ?mt (min ?mb (?cy - 1))"
      using move_cursor_relative_y[of s "cursor_x s" "- 1"] ia by simp
    from y False r show ?thesis
      by (intro exI[of _ ?s']) (auto simp: move_cursor_relative_frame)
  next
    case True
    from c have g: "0 \<le> ?mt + 1" "0 \<le> ?mt" "0 \<le> ?mb - ?mt" "?mt + 1 + (?mb - ?mt) \<le> ?h"
        "?mt + (?mb - ?mt) \<le> ?h" "?mt < ?h" by simp_all
    from memmove_rows[OF c(7) g(1-5) c(1)] obtain cb where
      cb: "memmove (chbuf s) ((?mt + 1) * ?w) (?mt * ?w) ((?mb - ?mt) * ?w) = Inr cb"
      and lcb: "length cb = length (chbuf s)"
      and pcb: "\<And>x y. 0 \<le> x \<and> x < ?w \<and> 0 \<le> y \<and> y < ?h \<Longrightarrow>
                 cb ! nat (y * ?w + x)
                   = (if ?mt + 1 \<le> y \<and> y < ?mt + 1 + (?mb - ?mt)
                      then chbuf s ! nat ((y - (?mt + 1) + ?mt) * ?w + x)
                      else chbuf s ! nat (y * ?w + x))"
      by blast
    from memmove_rows[OF c(8) g(1-5) c(1)] obtain gb where
      gb: "memmove (grbuf s) ((?mt + 1) * ?w) (?mt * ?w) ((?mb - ?mt) * ?w) = Inr gb"
      and lgb: "length gb = length (grbuf s)"
      and pgb: "\<And>x y. 0 \<le> x \<and> x < ?w \<and> 0 \<le> y \<and> y < ?h \<Longrightarrow>
                 gb ! nat (y * ?w + x)
                   = (if ?mt + 1 \<le> y \<and> y < ?mt + 1 + (?mb - ?mt)
                      then grbuf s ! nat ((y - (?mt + 1) + ?mt) * ?w + x)
                      else grbuf s ! nat (y * ?w + x))"
      by blast
    from lcb lgb c have l1: "int (length cb) = ?w * ?h" "int (length gb) = ?w * ?h" by simp_all
    from memset_row[OF l1(1) g(2,6) c(1), of "0x20"] obtain cb' where
      cb': "memset cb (?mt * ?w) 0x20 ?w = Inr cb'"
      and pcb': "\<And>x y. 0 \<le> x \<and> x < ?w \<and> 0 \<le> y \<and> y < ?h \<Longrightarrow>
                 cb' ! nat (y * ?w + x) = (if y = ?mt then 0x20 else cb ! nat (y * ?w + x))"
      by blast
    from memset_row[OF l1(2) g(2,6) c(1), of "0x20"] obtain gb' where
      gb': "memset gb (?mt * ?w) 0x20 ?w = Inr gb'"
      and pgb': "\<And>x y. 0 \<le> x \<and> x < ?w \<and> 0 \<le> y \<and> y < ?h \<Longrightarrow>
                 gb' ! nat (y * ?w + x) = (if y = ?mt then 0x20 else gb ! nat (y * ?w + x))"
      by blast
    from c obtain lb where
      lb: "memset (must_refresh_line_buf s) ?mt True (?mb - ?mt + 1) = Inr lb"
      using memset_ok[of ?mt "?mb - ?mt + 1" "must_refresh_line_buf s"] by auto
    let ?s1 = "s\<lparr>chbuf := cb', grbuf := gb', must_refresh_line_buf := lb\<rparr>"
    let ?s' = "(move_cursor_relative ?s1 (cursor_x ?s1) (- 1))\<lparr>must_refresh := True\<rparr>"
    from True cb gb cb' gb' lb have r: "cursor_reverse_index s = Inr ?s'"
      by (simp add: cursor_reverse_index_def)
    from c True have y: "cursor_y ?s' = ?cy"
      using move_cursor_relative_y[of ?s1 "cursor_x ?s1" "- 1"] ia by simp
    have cells: "cell_ch ?s' x y
                  = (if y = ?mt then 0x20
                     else if ?mt < y \<and> y \<le> ?mb then cell_ch s x (y - 1)
                     else cell_ch s x y)
                \<and> (y \<noteq> ?mt \<longrightarrow>
                     cell_gr ?s' x y
                       = (if ?mt < y \<and> y \<le> ?mb then cell_gr s x (y - 1)
                          else cell_gr s x y))"
      if xy: "0 \<le> x \<and> x < ?w \<and> 0 \<le> y \<and> y < ?h" for x y
    proof -
      have e: "(?mt + 1 \<le> y \<and> y < ?mt + 1 + (?mb - ?mt)) = (?mt < y \<and> y \<le> ?mb)" by linarith
      have i: "y - (?mt + 1) + ?mt = y - 1" by simp
      from pcb'[OF xy] pcb[OF xy] pgb'[OF xy] pgb[OF xy] show ?thesis
        unfolding e i by (simp add: cell_ch_def cell_gr_def move_cursor_relative_frame)
    qed
    from r y True cells show ?thesis
      by (intro exI[of _ ?s']) (simp add: move_cursor_relative_frame)
  qed
qed

theorem cursor_reverse_index_rows_witness:
  "case run_ops [MoveCursorAbsolute 3 0, SetTopAndBottomMargins 2 4]
          (init_vt102_generic_backend 10 6) of
     Inl e \<Rightarrow> False
   | Inr t \<Rightarrow> screen_inv t \<and> con_height t \<le> 2147483647
       \<and> (\<exists>s'. cursor_reverse_index t = Inr s' \<and> cursor_y t = 0 \<and> cursor_y s' = 2
               \<and> chbuf s' = chbuf t)
       \<and> (\<exists>s'. cursor_reverse_index (init_vt102_generic_backend 10 6) = Inr s'
               \<and> cursor_y s' = 0 \<and> cell_ch s' 4 0 = 0x20 \<and> cell_ch s' 4 1 = 0x45)"
proof -
  let ?r = "run_ops [MoveCursorAbsolute 3 0, SetTopAndBottomMargins 2 4]
          (init_vt102_generic_backend 10 6)"
  let ?i = "init_vt102_generic_backend 10 6"
  have v: "case ?r of Inl e \<Rightarrow> False
           | Inr t \<Rightarrow> cursor_y t = 0 \<and> margin_top t = 2 \<and> margin_bottom t = 4 \<and> con_height t = 6"
    by code_simp
  then obtain t where r: "?r = Inr t" by (cases ?r) auto
  with v have t: "cursor_y t = 0" "margin_top t = 2" "margin_bottom t = 4" "con_height t = 6"
    by simp_all
  have f: "size_fits 10 6"
    by (simp add: size_fits_def NR_MIN_VT102_SCREEN_COLUMNS_def NR_MIN_VT102_SCREEN_ROWS_def)
  have inv: "screen_inv t" by (rule run_ops_screen_inv[OF init_inv[OF f] _ r]) simp
  from t have hm: "con_height t \<le> 2147483647" by simp
  from cursor_reverse_index_rows[OF inv hm] t
  have a: "\<exists>s'. cursor_reverse_index t = Inr s' \<and> cursor_y t = 0 \<and> cursor_y s' = 2
               \<and> chbuf s' = chbuf t"
    by auto
  have im: "int_mul 10 6 = 60" by (simp add: int_mul_def)
  have i: "cursor_y ?i = 0" "margin_top ?i = 0" "margin_bottom ?i = 5" "con_height ?i = 6"
    "con_width ?i = 10" "cell_ch ?i 4 0 = 0x45"
    by (simp_all add: init_vt102_generic_backend_def Let_def cell_ch_def im
        NR_MIN_VT102_SCREEN_COLUMNS_def NR_MIN_VT102_SCREEN_ROWS_def)
  from i have hi: "con_height ?i \<le> 2147483647" by simp
  from cursor_reverse_index_rows[OF init_inv[OF f] hi] obtain s' where
    r': "cursor_reverse_index ?i = Inr s'"
    and y': "cursor_y ?i = margin_top ?i \<longrightarrow> cursor_y s' = cursor_y ?i
          \<and> (\<forall>x y. 0 \<le> x \<and> x < con_width ?i \<and> 0 \<le> y \<and> y < con_height ?i \<longrightarrow>
                cell_ch s' x y
                  = (if y = margin_top ?i then 0x20
                     else if margin_top ?i < y \<and> y \<le> margin_bottom ?i then cell_ch ?i x (y - 1)
                     else cell_ch ?i x y)
                \<and> (y \<noteq> margin_top ?i \<longrightarrow>
                     cell_gr s' x y
                       = (if margin_top ?i < y \<and> y \<le> margin_bottom ?i then cell_gr ?i x (y - 1)
                          else cell_gr ?i x y)))"
    by blast
  from i y' have c: "cursor_y s' = 0"
    and p: "\<And>x y. 0 \<le> x \<and> x < 10 \<and> 0 \<le> y \<and> y < 6 \<Longrightarrow>
                cell_ch s' x y
                  = (if y = 0 then 0x20
                     else if 0 < y \<and> y \<le> 5 then cell_ch ?i x (y - 1)
                     else cell_ch ?i x y)"
    by simp_all
  from p[of 4 0] p[of 4 1] i have "cell_ch s' 4 0 = 0x20 \<and> cell_ch s' 4 1 = 0x45" by simp
  with r' c have b: "\<exists>s'. cursor_reverse_index ?i = Inr s'
               \<and> cursor_y s' = 0 \<and> cell_ch s' 4 0 = 0x20 \<and> cell_ch s' 4 1 = 0x45"
    by blast
  from inv hm a b show ?thesis unfolding r by simp
qed

text \<open>
  The claim as first stated fails on a 10 by 6 screen with the cursor at column 3 of row 0
  and the margins set to rows 2 and 4: the cursor is not on \<open>margin_top\<close>, yet
  \<open>cursor_reverse_index\<close> moves it down to row 2 (the clamp into the region) and to
  column 6 (the horizontal offset is \<open>cursor_x\<close>).
\<close>

theorem cursor_reverse_index_counterexample:
  "case run_ops [MoveCursorAbsolute 3 0, SetTopAndBottomMargins 2 4]
          (init_vt102_generic_backend 10 6) of
     Inl e \<Rightarrow> False
   | Inr t \<Rightarrow>
       (case cursor_reverse_index t of
          Inl e \<Rightarrow> False
        | Inr t' \<Rightarrow> cursor_x t = 3 \<and> cursor_y t = 0 \<and> margin_top t = 2 \<and> margin_bottom t = 4
                   \<and> cursor_y t \<noteq> margin_top t
                   \<and> cursor_y t' = 2 \<and> cursor_y t' \<noteq> cursor_y t - 1
                   \<and> cursor_x t' = 6 \<and> cursor_x t' \<noteq> cursor_x t)"
  by code_simp

section \<open>What the scroll of a line feed and the deletion of characters do\<close>

lemma row_segment_iff:
  fixes x y i p q w :: int
  assumes "0 \<le> x" "x < w" "0 \<le> p" "q \<le> w"
  shows "(i * w + p \<le> y * w + x \<and> y * w + x < i * w + q) = (y = i \<and> p \<le> x \<and> x < q)"
proof -
  consider "y = i" | "i + 1 \<le> y" | "y + 1 \<le> i" by linarith
  then show ?thesis
  proof cases
    case 1
    then show ?thesis by simp
  next
    case 2
    with row_le_iff[OF assms(1,2), of "i + 1" y] have "(i + 1) * w \<le> y * w + x" by simp
    with assms 2 show ?thesis by (simp add: algebra_simps)
  next
    case 3
    with row_less_iff[OF assms(1,2), of y i] have "y * w + x < i * w" by simp
    with assms 3 show ?thesis by simp
  qed
qed

lemma move_cursor_absolute_frame:
  "chbuf (move_cursor_absolute s x y) = chbuf s"
  "grbuf (move_cursor_absolute s x y) = grbuf s"
  "con_width (move_cursor_absolute s x y) = con_width s"
  "con_height (move_cursor_absolute s x y) = con_height s"
  "margin_top (move_cursor_absolute s x y) = margin_top s"
  "margin_bottom (move_cursor_absolute s x y) = margin_bottom s"
  "must_refresh_line_buf (move_cursor_absolute s x y) = must_refresh_line_buf s"
  by (simp_all add: move_cursor_absolute_def Let_def)

text \<open>
  The scroll of \<open>handle_linefeed\<close> on \<open>margin_bottom\<close>: the rows of the region move up by
  one, the row \<open>margin_bottom\<close> becomes spaces with rendition 0, every row of the region
  is flagged, the other rows stay, and the cursor stays.
\<close>

lemma handle_linefeed_scroll:
  assumes inv: "screen_inv s" and bot: "cursor_y s = margin_bottom s"
  shows "\<exists>s'. handle_linefeed s = Inr s'
     \<and> cursor_x s' = cursor_x s \<and> cursor_y s' = cursor_y s
     \<and> (\<forall>x y. 0 \<le> x \<and> x < con_width s \<and> 0 \<le> y \<and> y < con_height s \<longrightarrow>
           cell_ch s' x y
             = (if y = margin_bottom s then 0x20
                else if margin_top s \<le> y \<and> y < margin_bottom s then cell_ch s x (y + 1)
                else cell_ch s x y)
           \<and> cell_gr s' x y
             = (if y = margin_bottom s then 0
                else if margin_top s \<le> y \<and> y < margin_bottom s then cell_gr s x (y + 1)
                else cell_gr s x y))
     \<and> (\<forall>y. margin_top s \<le> y \<and> y \<le> margin_bottom s \<longrightarrow> line_dirty s' y)"
proof -
  let ?w = "con_width s" and ?h = "con_height s"
  let ?mt = "margin_top s" and ?mb = "margin_bottom s"
  from inv have c: "0 < ?w" "0 \<le> ?mt" "?mt < ?mb" "?mb < ?h" "0 \<le> cursor_x s" "cursor_x s < ?w"
      "int (length (chbuf s)) = ?w * ?h" "int (length (grbuf s)) = ?w * ?h"
      "int (length (must_refresh_line_buf s)) = ?h"
    by (simp_all add: screen_inv_def NR_MIN_VT102_SCREEN_COLUMNS_def)
  from c have g: "0 \<le> ?mt" "0 \<le> ?mt + 1" "0 \<le> ?mb - ?mt" "?mt + (?mb - ?mt) \<le> ?h"
      "?mt + 1 + (?mb - ?mt) \<le> ?h" "0 \<le> ?mb" by simp_all
  from memmove_rows[OF c(7) g(1-5) c(1)] obtain cb where
    cb: "memmove (chbuf s) (?mt * ?w) ((?mt + 1) * ?w) ((?mb - ?mt) * ?w) = Inr cb"
    and lcb: "length cb = length (chbuf s)"
    and pcb: "\<And>x y. 0 \<le> x \<and> x < ?w \<and> 0 \<le> y \<and> y < ?h \<Longrightarrow>
               cb ! nat (y * ?w + x)
                 = (if ?mt \<le> y \<and> y < ?mt + (?mb - ?mt)
                    then chbuf s ! nat ((y - ?mt + (?mt + 1)) * ?w + x)
                    else chbuf s ! nat (y * ?w + x))"
    by blast
  from memmove_rows[OF c(8) g(1-5) c(1)] obtain gb where
    gb: "memmove (grbuf s) (?mt * ?w) ((?mt + 1) * ?w) ((?mb - ?mt) * ?w) = Inr gb"
    and lgb: "length gb = length (grbuf s)"
    and pgb: "\<And>x y. 0 \<le> x \<and> x < ?w \<and> 0 \<le> y \<and> y < ?h \<Longrightarrow>
               gb ! nat (y * ?w + x)
                 = (if ?mt \<le> y \<and> y < ?mt + (?mb - ?mt)
                    then grbuf s ! nat ((y - ?mt + (?mt + 1)) * ?w + x)
                    else grbuf s ! nat (y * ?w + x))"
    by blast
  from lcb lgb c have l1: "int (length cb) = ?w * ?h" "int (length gb) = ?w * ?h" by simp_all
  from memset_row[OF l1(1) g(6) c(4,1), of "0x20"] obtain cb' where
    cb': "memset cb (?mb * ?w) 0x20 ?w = Inr cb'"
    and pcb': "\<And>x y. 0 \<le> x \<and> x < ?w \<and> 0 \<le> y \<and> y < ?h \<Longrightarrow>
               cb' ! nat (y * ?w + x) = (if y = ?mb then 0x20 else cb ! nat (y * ?w + x))"
    by blast
  from memset_row[OF l1(2) g(6) c(4,1), of 0] obtain gb' where
    gb': "memset gb (?mb * ?w) 0 ?w = Inr gb'"
    and pgb': "\<And>x y. 0 \<le> x \<and> x < ?w \<and> 0 \<le> y \<and> y < ?h \<Longrightarrow>
               gb' ! nat (y * ?w + x) = (if y = ?mb then 0 else gb ! nat (y * ?w + x))"
    by blast
  from c obtain lb where
    lb: "memset (must_refresh_line_buf s) ?mt True (?mb - ?mt + 1) = Inr lb"
    using memset_ok[of ?mt "?mb - ?mt + 1" "must_refresh_line_buf s"] by auto
  let ?s1 = "s\<lparr>chbuf := cb', grbuf := gb', must_refresh_line_buf := lb\<rparr>"
  let ?s' = "(move_cursor_absolute ?s1 (cursor_x ?s1) (cursor_y ?s1 + 1))\<lparr>must_refresh := True\<rparr>"
  from bot cb gb cb' gb' lb have r: "handle_linefeed s = Inr ?s'"
    by (simp add: handle_linefeed_def)
  from c bot have cur: "cursor_x ?s' = cursor_x s" "cursor_y ?s' = cursor_y s"
    by (simp_all add: move_cursor_absolute_def Let_def)
  have cells: "cell_ch ?s' x y
             = (if y = ?mb then 0x20
                else if ?mt \<le> y \<and> y < ?mb then cell_ch s x (y + 1)
                else cell_ch s x y)
           \<and> cell_gr ?s' x y
             = (if y = ?mb then 0
                else if ?mt \<le> y \<and> y < ?mb then cell_gr s x (y + 1)
                else cell_gr s x y)"
    if xy: "0 \<le> x \<and> x < ?w \<and> 0 \<le> y \<and> y < ?h" for x y
  proof -
    have e: "(?mt \<le> y \<and> y < ?mt + (?mb - ?mt)) = (?mt \<le> y \<and> y < ?mb)" by linarith
    have i: "y - ?mt + (?mt + 1) = y + 1" by simp
    from pcb'[OF xy] pcb[OF xy] pgb'[OF xy] pgb[OF xy] show ?thesis
      unfolding e i by (simp add: cell_ch_def cell_gr_def move_cursor_absolute_frame)
  qed
  have dirty: "line_dirty ?s' y" if y: "?mt \<le> y \<and> y \<le> ?mb" for y
  proof -
    from y c have "0 \<le> y" "y < int (length (must_refresh_line_buf s))" by simp_all
    from memset_nth[OF lb this] y show ?thesis
      by (simp add: line_dirty_def move_cursor_absolute_frame)
  qed
  from r cur cells dirty show ?thesis by (intro exI[of _ ?s']) simp
qed

text \<open>
  What \<open>delete_characters_at_cursor\<close> does to the characters for a positive count: with
  \<open>k\<close> the count clamped to \<open>con_width - cursor_x\<close>, the characters of the cursor row
  from column \<open>cursor_x + k\<close> on move left by \<open>k\<close>, and the last \<open>k\<close> columns of the
  row become spaces.
\<close>

lemma delete_characters_chbuf:
  assumes inv: "screen_inv s" and n: "0 < n"
  shows "\<exists>s'. delete_characters_at_cursor s n = Inr s' \<and> same_shape s s' \<and> grbuf s' = grbuf s
     \<and> (\<forall>x y. 0 \<le> x \<and> x < con_width s \<and> 0 \<le> y \<and> y < con_height s \<longrightarrow>
           cell_ch s' x y
             = (if y = cursor_y s \<and> con_width s - min n (con_width s - cursor_x s) \<le> x
                then 0x20
                else if y = cursor_y s \<and> cursor_x s \<le> x
                then cell_ch s (x + min n (con_width s - cursor_x s)) y
                else cell_ch s x y))"
proof -
  let ?w = "con_width s" and ?h = "con_height s" and ?cx = "cursor_x s" and ?cy = "cursor_y s"
  define k where "k = (if n > ?w - ?cx then ?w - ?cx else n)"
  have km: "k = min n (?w - ?cx)" by (simp add: k_def)
  from inv have c: "0 \<le> ?cx" "?cx < ?w" "0 \<le> ?cy" "?cy < ?h"
      "int (length (chbuf s)) = ?w * ?h" "int (length (must_refresh_line_buf s)) = ?h"
    by (simp_all add: screen_inv_def)
  from n c have k: "0 < k" "k \<le> ?w - ?cx" by (simp_all add: k_def)
  from c have "(?cy + 1) * ?w \<le> ?w * ?h" by (intro row_offset_bound) simp_all
  then have top: "?cy * ?w + ?w \<le> ?w * ?h" by (simp add: algebra_simps)
  from c have base: "0 \<le> ?cy * ?w" by simp
  from base top c k obtain cb where
    cb: "memmove (chbuf s) (?cy * ?w + ?cx) (?cy * ?w + ?cx + k) (?w - ?cx - k) = Inr cb"
    using memmove_ok[of "?cy * ?w + ?cx" "?cy * ?w + ?cx + k" "?w - ?cx - k" "chbuf s"] by auto
  have lo: "0 \<le> (?cy + 1) * ?w - k"
  proof -
    have "(?cy + 1) * ?w - k = ?cy * ?w + (?w - k)" by (simp add: algebra_simps)
    with base k c show ?thesis by linarith
  qed
  have hi: "(?cy + 1) * ?w - k + k \<le> int (length cb)"
    using top c memmove_length[OF cb] by (simp add: algebra_simps)
  from k have "0 \<le> k" by simp
  from memset_ok[OF lo this hi] obtain cb' where
    cb': "memset cb ((?cy + 1) * ?w - k) 0x20 k = Inr cb'"
    by blast
  from c obtain lb where lb: "store (must_refresh_line_buf s) ?cy True = Inr lb"
    using store_ok[of ?cy "must_refresh_line_buf s"] by auto
  let ?s' = "s\<lparr>chbuf := cb', must_refresh_line_buf := lb, must_refresh := True\<rparr>"
  from n cb cb' lb have r: "delete_characters_at_cursor s n = Inr ?s'"
    unfolding delete_characters_at_cursor_def Let_def k_def[symmetric] by simp
  have sh: "same_shape s ?s'"
    using memmove_length[OF cb] memset_length[OF cb'] store_length[OF lb]
    by (simp add: same_shape_def)
  have cells: "cell_ch ?s' x y
             = (if y = ?cy \<and> ?w - k \<le> x then 0x20
                else if y = ?cy \<and> ?cx \<le> x then cell_ch s (x + k) y
                else cell_ch s x y)"
    if xy: "0 \<le> x \<and> x < ?w \<and> 0 \<le> y \<and> y < ?h" for x y
  proof -
    from xy have x: "0 \<le> x" "x < ?w" and y: "0 \<le> y" "y < ?h" by simp_all
    from cell_index_bound[OF x y] c memmove_length[OF cb]
    have j: "0 \<le> y * ?w + x" "y * ?w + x < int (length (chbuf s))"
      "y * ?w + x < int (length cb)" by simp_all
    have e1: "?cy * ?w + ?cx + (?w - ?cx - k) = ?cy * ?w + (?w - k)" by simp
    have d: "(?cy + 1) * ?w = ?cy * ?w + ?w" by (simp add: algebra_simps)
    from c k have b1: "?w - k \<le> ?w" "0 \<le> ?w - k" "(?w::int) \<le> ?w" by simp_all
    have r1: "(?cy * ?w + ?cx \<le> y * ?w + x \<and> y * ?w + x < ?cy * ?w + ?cx + (?w - ?cx - k))
              = (y = ?cy \<and> ?cx \<le> x \<and> x < ?w - k)"
      unfolding e1 by (rule row_segment_iff[OF x c(1) b1(1)])
    have r2: "((?cy + 1) * ?w - k \<le> y * ?w + x \<and> y * ?w + x < (?cy + 1) * ?w - k + k)
              = (y = ?cy \<and> ?w - k \<le> x \<and> x < ?w)"
      unfolding d using row_segment_iff[OF x b1(2,3), of ?cy y] by auto
    have i: "?cy * ?w + ?cx + k + (y * ?w + x - (?cy * ?w + ?cx)) = y * ?w + (x + k)"
      by simp
    from memset_nth[OF cb' j(1,3)] memmove_nth[OF cb j(1,2)] x show ?thesis
      unfolding r1 r2 i by (auto simp: cell_ch_def)
  qed
  from r sh cells show ?thesis unfolding km by (intro exI[of _ ?s']) simp
qed

end
